theory Spec2Isabelle
  imports Complex_Main
begin

section \<open>Text and character classes\<close>

text \<open>
  A text is a \<^typ>\<open>string\<close>; one \<^typ>\<open>char\<close> stands for one code point below 256 of
  a Python \<^verbatim>\<open>str\<close>. The three character categories below are the ones the \<^verbatim>\<open>re\<close>
  module uses for a \<^verbatim>\<open>str\<close> pattern (\<^verbatim>\<open>\w\<close>, \<^verbatim>\<open>\d\<close>, \<^verbatim>\<open>\s\<close>), restricted to
  these code points.
\<close>

definition ord :: "char \<Rightarrow> nat" where
  "ord c = of_char c"

definition is_word :: "char \<Rightarrow> bool" where
  "is_word c =
     (let n = ord c in
        (48 \<le> n \<and> n \<le> 57) \<or> (65 \<le> n \<and> n \<le> 90) \<or> n = 95 \<or> (97 \<le> n \<and> n \<le> 122) \<or>
        n = 170 \<or> n = 178 \<or> n = 179 \<or> n = 181 \<or> n = 185 \<or> n = 186 \<or>
        (188 \<le> n \<and> n \<le> 190) \<or> (192 \<le> n \<and> n \<le> 214) \<or> (216 \<le> n \<and> n \<le> 246) \<or>
        248 \<le> n)"

definition is_digit :: "char \<Rightarrow> bool" where
  "is_digit c = (48 \<le> ord c \<and> ord c \<le> 57)"

definition is_space :: "char \<Rightarrow> bool" where
  "is_space c =
     (let n = ord c in (9 \<le> n \<and> n \<le> 13) \<or> (28 \<le> n \<and> n \<le> 32) \<or> n = 133 \<or> n = 160)"

text \<open>
  Case mapping. Among the code points below 256 only the ASCII letters have a lower or upper
  case partner that is an ASCII character, and every class of the patterns below lists ASCII
  characters only, so the mapping of the other code points is left out.
\<close>

definition lower_chr :: "char \<Rightarrow> char" where
  "lower_chr c = (if 65 \<le> ord c \<and> ord c \<le> 90 then char_of (ord c + 32) else c)"

definition upper_chr :: "char \<Rightarrow> char" where
  "upper_chr c = (if 97 \<le> ord c \<and> ord c \<le> 122 then char_of (ord c - 32) else c)"

definition upper :: "string \<Rightarrow> string" where
  "upper s = map upper_chr s"

section \<open>Regular expressions of the pattern registry\<close>

text \<open>An item of a bracketed class: a character, a range, or a category.\<close>

datatype citem = Chr char | Rng char char | CatDigit | CatSpace

fun in_item :: "citem \<Rightarrow> char \<Rightarrow> bool" where
  "in_item (Chr a) c = (c = a)"
| "in_item (Rng a b) c = (ord a \<le> ord c \<and> ord c \<le> ord b)"
| "in_item CatDigit c = is_digit c"
| "in_item CatSpace c = is_space c"

definition in_items :: "citem list \<Rightarrow> char \<Rightarrow> bool" where
  "in_items items c = list_ex (\<lambda>i. in_item i c) items"

text \<open>
  Membership in a class; with \<^verbatim>\<open>re.IGNORECASE\<close> (\<open>ic\<close>) the engine asks for the lower
  case or the upper case of the character to be in the class.
\<close>

definition in_cls :: "bool \<Rightarrow> citem list \<Rightarrow> char \<Rightarrow> bool" where
  "in_cls ic items c =
     (if ic then in_items items (lower_chr c) \<or> in_items items (upper_chr c)
      else in_items items c)"

text \<open>
  The constructs the six patterns use: one character of a class, the word boundary \<^verbatim>\<open>\b\<close>,
  concatenation, ordered alternation, the greedy option \<^verbatim>\<open>?\<close>, the greedy repetition
  \<^verbatim>\<open>{lo,hi}\<close> of a class (\<^verbatim>\<open>+\<close> is \<^verbatim>\<open>{1,}\<close>), and a numbered capture group.
\<close>

datatype regex =
    Eps
  | Set "citem list"
  | WordB
  | Seq regex regex
  | Alt regex regex
  | Opt regex
  | Rep nat "nat option" "citem list"
  | Grp nat regex

definition Lit :: "char \<Rightarrow> regex" where
  "Lit c = Set [Chr c]"

fun seqs :: "regex list \<Rightarrow> regex" where
  "seqs [] = Eps"
| "seqs [r] = r"
| "seqs (r # rs) = Seq r (seqs rs)"

fun alts :: "regex list \<Rightarrow> regex" where
  "alts [] = Eps"
| "alts [r] = r"
| "alts (r # rs) = Alt r (alts rs)"

definition word :: "string \<Rightarrow> regex" where
  "word s = seqs (map Lit s)"

text \<open>
  The state of a match attempt: the character before the current position (none at the start
  of the text), the text still to read, and the groups captured so far, latest first.
\<close>

type_synonym caps = "(nat \<times> string) list"
type_synonym mstate = "char option \<times> string \<times> caps"

text \<open>
  \<^verbatim>\<open>\b\<close> holds where exactly one of the character before and the character after the
  position is a word character; the two ends of the text count as not a word character.
\<close>

definition word_before :: "char option \<Rightarrow> bool" where
  "word_before prev = (case prev of None \<Rightarrow> False | Some c \<Rightarrow> is_word c)"

definition word_after :: "string \<Rightarrow> bool" where
  "word_after s = (case s of [] \<Rightarrow> False | c # _ \<Rightarrow> is_word c)"

definition boundary :: "char option \<Rightarrow> string \<Rightarrow> bool" where
  "boundary prev s = (word_before prev \<noteq> word_after s)"

text \<open>
  A greedy repetition of a class: the positions where it can stop, the longest run first
  (the order in which backtracking gives characters back).
\<close>

fun rep_ends :: "(char \<Rightarrow> bool) \<Rightarrow> nat \<Rightarrow> nat option \<Rightarrow> char option \<Rightarrow> string
    \<Rightarrow> (char option \<times> string) list" where
  "rep_ends p lo hi prev [] = (if lo = 0 then [(prev, [])] else [])"
| "rep_ends p lo hi prev (c # cs) =
     (if p c \<and> hi \<noteq> Some 0
      then rep_ends p (lo - 1) (map_option (\<lambda>h. h - 1) hi) (Some c) cs else []) @
     (if lo = 0 then [(prev, c # cs)] else [])"

text \<open>
  All the ways a pattern matches from a state, in the order a backtracking engine tries them.
  The head of the list is the match the engine reports.
\<close>

fun ends :: "bool \<Rightarrow> regex \<Rightarrow> mstate \<Rightarrow> mstate list" where
  "ends ic Eps st = [st]"
| "ends ic (Set items) (prev, s, caps) =
     (case s of [] \<Rightarrow> []
      | c # cs \<Rightarrow> if in_cls ic items c then [(Some c, cs, caps)] else [])"
| "ends ic WordB (prev, s, caps) = (if boundary prev s then [(prev, s, caps)] else [])"
| "ends ic (Seq a b) st = concat (map (ends ic b) (ends ic a st))"
| "ends ic (Alt a b) st = ends ic a st @ ends ic b st"
| "ends ic (Opt a) st = ends ic a st @ [st]"
| "ends ic (Rep lo hi items) (prev, s, caps) =
     map (\<lambda>(p, r). (p, r, caps)) (rep_ends (in_cls ic items) lo hi prev s)"
| "ends ic (Grp n a) (prev, s, caps) =
     map (\<lambda>(p, r, cp). (p, r, (n, take (length s - length r) s) # cp))
       (ends ic a (prev, s, caps))"

text \<open>\<^verbatim>\<open>re.fullmatch\<close>: some way of matching consumes the whole string.\<close>

definition fullmatch :: "bool \<Rightarrow> regex \<Rightarrow> string \<Rightarrow> bool" where
  "fullmatch ic r s = list_ex (\<lambda>(p, s', cp). s' = []) (ends ic r (None, s, []))"

fun ngroups :: "regex \<Rightarrow> nat" where
  "ngroups (Seq a b) = ngroups a + ngroups b"
| "ngroups (Alt a b) = ngroups a + ngroups b"
| "ngroups (Opt a) = ngroups a"
| "ngroups (Grp n a) = Suc (ngroups a)"
| "ngroups r = 0"

definition group :: "caps \<Rightarrow> nat \<Rightarrow> string" where
  "group cp n = (case map_of cp n of None \<Rightarrow> [] | Some g \<Rightarrow> g)"

subsection \<open>Scanning a text for the non-overlapping matches\<close>

text \<open>
  The scanner behind \<^verbatim>\<open>re.findall\<close> and \<^verbatim>\<open>re.sub\<close>: from left to right, at each position
  the first match of the pattern is taken, and the scan goes on behind it; a character at
  which nothing matches is passed over. An empty match is reported and the scan moves one
  character on.
\<close>

datatype piece = Plain char | Hit string caps

function pieces :: "bool \<Rightarrow> regex \<Rightarrow> char option \<Rightarrow> string \<Rightarrow> piece list" where
  "pieces ic r prev s =
     (case ends ic r (prev, s, []) of
        [] \<Rightarrow> (case s of [] \<Rightarrow> [] | c # cs \<Rightarrow> Plain c # pieces ic r (Some c) cs)
      | (prev', s', cp) # _ \<Rightarrow>
          if length s' < length s
          then Hit (take (length s - length s') s) cp # pieces ic r prev' s'
          else (case s of [] \<Rightarrow> [Hit [] cp]
                | c # cs \<Rightarrow> Hit [] cp # Plain c # pieces ic r (Some c) cs))"
  by pat_completeness auto
termination
  by (relation "measure (\<lambda>(ic, r, prev, s). length s)") auto

declare pieces.simps [simp del]

fun hits :: "piece list \<Rightarrow> (string \<times> caps) list" where
  "hits [] = []"
| "hits (Plain c # ps) = hits ps"
| "hits (Hit m cp # ps) = (m, cp) # hits ps"

text \<open>
  \<^verbatim>\<open>re.findall\<close>: a list of strings for a pattern with no group or one group, a list of
  tuples for a pattern with several groups.
\<close>

datatype matches = Strings "string list" | Tuples "string list list"

definition findall :: "bool \<Rightarrow> regex \<Rightarrow> string \<Rightarrow> matches" where
  "findall ic r s =
     (let hs = hits (pieces ic r None s) in
        if ngroups r = 0 then Strings (map fst hs)
        else if ngroups r = 1 then Strings (map (\<lambda>(m, cp). group cp 1) hs)
        else Tuples (map (\<lambda>(m, cp). map (group cp) [1 ..< Suc (ngroups r)]) hs))"

datatype error = IndexError

text \<open>
  \<^verbatim>\<open>re.sub\<close> with a replacement function, which is given the whole match and its groups and
  may raise.
\<close>

fun sub_pieces :: "(string \<Rightarrow> caps \<Rightarrow> error + string) \<Rightarrow> piece list \<Rightarrow> error + string" where
  "sub_pieces f [] = Inr []"
| "sub_pieces f (Plain c # ps) =
     (case sub_pieces f ps of Inl e \<Rightarrow> Inl e | Inr t \<Rightarrow> Inr (c # t))"
| "sub_pieces f (Hit m cp # ps) =
     (case f m cp of Inl e \<Rightarrow> Inl e
      | Inr rep \<Rightarrow> (case sub_pieces f ps of Inl e \<Rightarrow> Inl e | Inr t \<Rightarrow> Inr (rep @ t)))"

definition re_sub :: "bool \<Rightarrow> regex \<Rightarrow> (string \<Rightarrow> caps \<Rightarrow> error + string) \<Rightarrow> string
    \<Rightarrow> error + string" where
  "re_sub ic r f s = sub_pieces f (pieces ic r None s)"

section \<open>The PII validator\<close>

subsection \<open>PATTERNS\<close>

definition letters :: "citem list" where
  "letters = [Rng CHR ''A'' CHR ''Z'', Rng CHR ''a'' CHR ''z'']"

definition digits09 :: "citem list" where
  "digits09 = [Rng CHR ''0'' CHR ''9'']"

text \<open>\<^verbatim>\<open>\b[A-Za-z0-9._%+-]+@[A-Za-z0-9.-]+\.[A-Z|a-z]{2,}\b\<close>\<close>

definition email_local :: "citem list" where
  "email_local = letters @ digits09 @
     [Chr CHR ''.'', Chr CHR ''_'', Chr CHR ''%'', Chr CHR ''+'', Chr CHR ''-'']"

definition email_domain :: "citem list" where
  "email_domain = letters @ digits09 @ [Chr CHR ''.'', Chr CHR ''-'']"

definition email_tld :: "citem list" where
  "email_tld = [Rng CHR ''A'' CHR ''Z'', Chr CHR ''|'', Rng CHR ''a'' CHR ''z'']"

definition email_re :: regex where
  "email_re = seqs [WordB, Rep 1 None email_local, Lit CHR ''@'', Rep 1 None email_domain,
     Lit CHR ''.'', Rep 2 None email_tld, WordB]"

text \<open>\<^verbatim>\<open>\b(?:\+?1[-.]?)?\(?([0-9]{3})\)?[-.]?([0-9]{3})[-.]?([0-9]{4})\b\<close>\<close>

definition dash_dot :: "citem list" where
  "dash_dot = [Chr CHR ''-'', Chr CHR ''.'']"

definition phone_re :: regex where
  "phone_re = seqs [WordB,
     Opt (seqs [Opt (Lit CHR ''+''), Lit CHR ''1'', Opt (Set dash_dot)]),
     Opt (Lit CHR ''(''), Grp 1 (Rep 3 (Some 3) digits09), Opt (Lit CHR '')''),
     Opt (Set dash_dot), Grp 2 (Rep 3 (Some 3) digits09),
     Opt (Set dash_dot), Grp 3 (Rep 4 (Some 4) digits09), WordB]"

text \<open>\<^verbatim>\<open>\b\d{3}-\d{2}-\d{4}\b\<close>\<close>

definition ssn_re :: regex where
  "ssn_re = seqs [WordB, Rep 3 (Some 3) [CatDigit], Lit CHR ''-'', Rep 2 (Some 2) [CatDigit],
     Lit CHR ''-'', Rep 4 (Some 4) [CatDigit], WordB]"

text \<open>\<^verbatim>\<open>\b\d{4}[-\s]?\d{4}[-\s]?\d{4}[-\s]?\d{4}\b\<close>\<close>

definition dash_space :: "citem list" where
  "dash_space = [Chr CHR ''-'', CatSpace]"

definition credit_card_re :: regex where
  "credit_card_re = seqs [WordB, Rep 4 (Some 4) [CatDigit], Opt (Set dash_space),
     Rep 4 (Some 4) [CatDigit], Opt (Set dash_space), Rep 4 (Some 4) [CatDigit],
     Opt (Set dash_space), Rep 4 (Some 4) [CatDigit], WordB]"

text \<open>\<^verbatim>\<open>\b\d{1,3}\.\d{1,3}\.\d{1,3}\.\d{1,3}\b\<close>\<close>

definition ip_address_re :: regex where
  "ip_address_re = seqs [WordB, Rep 1 (Some 3) [CatDigit], Lit CHR ''.'',
     Rep 1 (Some 3) [CatDigit], Lit CHR ''.'', Rep 1 (Some 3) [CatDigit], Lit CHR ''.'',
     Rep 1 (Some 3) [CatDigit], WordB]"

text \<open>\<^verbatim>\<open>\b\d+\s+[A-Za-z]+\s+(?:Street|St|Avenue|Ave|Road|Rd|Boulevard|Blvd|Lane|Ln|Drive|Dr)\b\<close>\<close>

definition address_re :: regex where
  "address_re = seqs [WordB, Rep 1 None [CatDigit], Rep 1 None [CatSpace], Rep 1 None letters,
     Rep 1 None [CatSpace],
     alts [word ''Street'', word ''St'', word ''Avenue'', word ''Ave'', word ''Road'',
           word ''Rd'', word ''Boulevard'', word ''Blvd'', word ''Lane'', word ''Ln'',
           word ''Drive'', word ''Dr''],
     WordB]"

text \<open>The dictionary, in its insertion order (the order in which \<^verbatim>\<open>items()\<close> yields it).\<close>

definition PATTERNS :: "(string \<times> regex) list" where
  "PATTERNS =
     [(''email'', email_re), (''phone'', phone_re), (''ssn'', ssn_re),
      (''credit_card'', credit_card_re), (''ip_address'', ip_address_re),
      (''address'', address_re)]"

subsection \<open>The validator and its result\<close>

record PIIDetectionResult =
  has_pii :: bool
  pii_types :: "string list"
  confidence :: real
  details :: "string list"
  safe_to_send :: bool

record PIIValidator =
  enabled :: bool
  threshold :: real

text \<open>\<^verbatim>\<open>_mask\<close>: \<^verbatim>\<open>value[:2] + '***' + value[-2:]\<close> unless the value has at most 4 characters.\<close>

definition mask :: "string \<Rightarrow> string" where
  "mask v = (if length v \<le> 4 then ''***'' else take 2 v @ ''***'' @ drop (length v - 2) v)"

text \<open>\<^verbatim>\<open>sep.join(parts)\<close>\<close>

fun join :: "string \<Rightarrow> string list \<Rightarrow> string" where
  "join sep [] = []"
| "join sep [x] = x"
| "join sep (x # xs) = x @ sep @ join sep xs"

text \<open>
  One round of the loop of \<^verbatim>\<open>_detect_patterns\<close>: the entries one pattern adds. The test
  \<^verbatim>\<open>isinstance(matches[0], tuple)\<close> is the case distinction on the result of \<open>findall\<close>.
\<close>

definition detect_one :: "string \<times> regex \<Rightarrow> string \<Rightarrow> (string \<times> string) list" where
  "detect_one p content =
     (case p of (pii_type, pattern) \<Rightarrow>
        (case findall True pattern content of
           Tuples ms \<Rightarrow> map (\<lambda>m. (pii_type, ''Found '' @ pii_type @ '': '' @ join ''-'' m)) ms
         | Strings ms \<Rightarrow> map (\<lambda>m. (pii_type, ''Found '' @ pii_type @ '': '' @ mask m)) ms))"

fun detect_loop :: "(string \<times> regex) list \<Rightarrow> string \<Rightarrow> (string \<times> string) list
    \<Rightarrow> (string \<times> string) list" where
  "detect_loop [] content detected = detected"
| "detect_loop (p # ps) content detected =
     detect_loop ps content (detected @ detect_one p content)"

definition detect_patterns :: "string \<Rightarrow> (string \<times> string) list" where
  "detect_patterns content = detect_loop PATTERNS content []"

definition validate :: "PIIValidator \<Rightarrow> string \<Rightarrow> PIIDetectionResult" where
  "validate self content =
     (if \<not> enabled self
      then \<lparr>has_pii = False, pii_types = [], confidence = 1, details = [],
            safe_to_send = True\<rparr>
      else
        let detected_pii = detect_patterns content;
            hp = (length detected_pii > 0);
            conf = (if detected_pii \<noteq> [] then 1 else 0);
            safe = (\<not> hp \<or> conf < threshold self)
        in \<lparr>has_pii = hp, pii_types = map fst detected_pii, confidence = conf,
             details = map snd detected_pii, safe_to_send = safe\<rparr>)"

subsection \<open>sanitize\<close>

text \<open>\<^verbatim>\<open>s.split(sep)\<close> for a separator of one character.\<close>

fun split_chr :: "char \<Rightarrow> string \<Rightarrow> string list" where
  "split_chr sep [] = [[]]"
| "split_chr sep (c # cs) =
     (if c = sep then [] # split_chr sep cs
      else (case split_chr sep cs of [] \<Rightarrow> [[c]] | w # ws \<Rightarrow> (c # w) # ws))"

text \<open>\<^verbatim>\<open>xs[i]\<close> for \<open>i \<ge> 0\<close>: out of range raises.\<close>

definition index :: "'a list \<Rightarrow> nat \<Rightarrow> error + 'a" where
  "index xs i = (if i < length xs then Inr (xs ! i) else Inl IndexError)"

text \<open>\<^verbatim>\<open>lambda m: '[EMAIL_REDACTED]@' + m.group(0).split('@')[1]\<close>\<close>

definition email_repl :: "string \<Rightarrow> caps \<Rightarrow> error + string" where
  "email_repl m cp =
     (case index (split_chr CHR ''@'' m) 1 of
        Inl e \<Rightarrow> Inl e
      | Inr d \<Rightarrow> Inr (''[EMAIL_REDACTED]@'' @ d))"

text \<open>A replacement string without backslash stands for itself.\<close>

definition const_repl :: "string \<Rightarrow> string \<Rightarrow> caps \<Rightarrow> error + string" where
  "const_repl t m cp = Inr t"

text \<open>The body of the loop of \<^verbatim>\<open>sanitize\<close>, with its chain of \<^verbatim>\<open>if\<close>/\<^verbatim>\<open>elif\<close>.\<close>

definition sanitize_step :: "string \<times> regex \<Rightarrow> string \<Rightarrow> error + string" where
  "sanitize_step p sanitized =
     (case p of (pii_type, pattern) \<Rightarrow>
        if pii_type = ''email'' then re_sub True pattern email_repl sanitized
        else if pii_type = ''phone''
          then re_sub False pattern (const_repl ''[PHONE_REDACTED]'') sanitized
        else if pii_type = ''ssn''
          then re_sub False pattern (const_repl ''[SSN_REDACTED]'') sanitized
        else if pii_type = ''credit_card''
          then re_sub False pattern (const_repl ''[CARD_REDACTED]'') sanitized
        else re_sub True pattern (const_repl (''['' @ upper pii_type @ ''_REDACTED]''))
               sanitized)"

fun sanitize_loop :: "(string \<times> regex) list \<Rightarrow> string \<Rightarrow> error + string" where
  "sanitize_loop [] sanitized = Inr sanitized"
| "sanitize_loop (p # ps) sanitized =
     (case sanitize_step p sanitized of
        Inl e \<Rightarrow> Inl e
      | Inr sanitized' \<Rightarrow> sanitize_loop ps sanitized')"

definition sanitize :: "string \<Rightarrow> error + string" where
  "sanitize content = sanitize_loop PATTERNS content"

text \<open>\<^verbatim>\<open>needle in text\<close>\<close>

fun contains :: "string \<Rightarrow> string \<Rightarrow> bool" where
  "contains needle [] = (needle = [])"
| "contains needle (c # cs) = (take (length needle) (c # cs) = needle \<or> contains needle cs)"

section \<open>What a pattern matches\<close>

text \<open>
  The matcher above is described by a relation that does not mention the order of the
  attempts: \<open>mt ic r p xs rest\<close> says that \<open>r\<close> matches exactly the characters \<open>xs\<close> when
  \<open>p\<close> is the character before them and \<open>rest\<close> is the text behind them.
\<close>

definition lastopt :: "char option \<Rightarrow> string \<Rightarrow> char option" where
  "lastopt p xs = (if xs = [] then p else Some (last xs))"

definition at_most :: "nat option \<Rightarrow> nat \<Rightarrow> bool" where
  "at_most hi n = (case hi of None \<Rightarrow> True | Some h \<Rightarrow> n \<le> h)"

fun mt :: "bool \<Rightarrow> regex \<Rightarrow> char option \<Rightarrow> string \<Rightarrow> string \<Rightarrow> bool" where
  "mt ic Eps p xs rest = (xs = [])"
| "mt ic (Set items) p xs rest = (\<exists>c. xs = [c] \<and> in_cls ic items c)"
| "mt ic WordB p xs rest = (xs = [] \<and> boundary p rest)"
| "mt ic (Seq a b) p xs rest =
     (\<exists>ys zs. xs = ys @ zs \<and> mt ic a p ys (zs @ rest) \<and> mt ic b (lastopt p ys) zs rest)"
| "mt ic (Alt a b) p xs rest = (mt ic a p xs rest \<or> mt ic b p xs rest)"
| "mt ic (Opt a) p xs rest = (mt ic a p xs rest \<or> xs = [])"
| "mt ic (Rep lo hi items) p xs rest =
     (list_all (in_cls ic items) xs \<and> lo \<le> length xs \<and> at_most hi (length xs))"
| "mt ic (Grp n a) p xs rest = mt ic a p xs rest"

text \<open>
  A class is caseless when it lists no letter; a pattern is caseless when all its classes
  are. \<^verbatim>\<open>re.IGNORECASE\<close> makes no difference to a caseless pattern.
\<close>

fun caseless_item :: "citem \<Rightarrow> bool" where
  "caseless_item (Chr a) =
     (\<not> (65 \<le> ord a \<and> ord a \<le> 90) \<and> \<not> (97 \<le> ord a \<and> ord a \<le> 122))"
| "caseless_item (Rng a b) = (ord b < 65 \<or> (90 < ord a \<and> ord b < 97) \<or> 122 < ord a)"
| "caseless_item CatDigit = True"
| "caseless_item CatSpace = True"

fun caseless :: "regex \<Rightarrow> bool" where
  "caseless Eps = True"
| "caseless (Set items) = list_all caseless_item items"
| "caseless WordB = True"
| "caseless (Seq a b) = (caseless a \<and> caseless b)"
| "caseless (Alt a b) = (caseless a \<and> caseless b)"
| "caseless (Opt a) = caseless a"
| "caseless (Rep lo hi items) = list_all caseless_item items"
| "caseless (Grp n a) = caseless a"

text \<open>A string with exactly one \<^verbatim>\<open>@\<close>, between \<open>l\<close> and \<open>d\<close>.\<close>

definition one_at :: "string \<Rightarrow> string \<Rightarrow> string \<Rightarrow> bool" where
  "one_at m l d = (m = l @ CHR ''@'' # d \<and> CHR ''@'' \<notin> set l \<and> CHR ''@'' \<notin> set d)"

text \<open>Some detector has a match in the text.\<close>

definition any_match :: "string \<Rightarrow> bool" where
  "any_match content =
     list_ex (\<lambda>p. hits (pieces True (snd p) None content) \<noteq> []) PATTERNS"

section \<open>The sanitizer as the specification describes it\<close>

text \<open>
  A global find-and-replace pass: every non-overlapping match of the pattern, found without
  regard to case, is replaced by what the redaction rule makes of it; the text between the
  matches stays.
\<close>

definition replace_all :: "regex \<Rightarrow> (string \<Rightarrow> string) \<Rightarrow> string \<Rightarrow> string" where
  "replace_all r redact s =
     concat (map (\<lambda>p. case p of Plain c \<Rightarrow> [c] | Hit m cp \<Rightarrow> redact m)
       (pieces True r None s))"

text \<open>The domain of an address: everything behind its \<^verbatim>\<open>@\<close>.\<close>

definition domain_of :: "string \<Rightarrow> string" where
  "domain_of m = tl (dropWhile (\<lambda>c. c \<noteq> CHR ''@'') m)"

definition email_pass :: "string \<Rightarrow> string" where
  "email_pass = replace_all email_re (\<lambda>m. ''[EMAIL_REDACTED]@'' @ domain_of m)"

definition phone_pass :: "string \<Rightarrow> string" where
  "phone_pass = replace_all phone_re (\<lambda>m. ''[PHONE_REDACTED]'')"

definition ssn_pass :: "string \<Rightarrow> string" where
  "ssn_pass = replace_all ssn_re (\<lambda>m. ''[SSN_REDACTED]'')"

definition credit_card_pass :: "string \<Rightarrow> string" where
  "credit_card_pass = replace_all credit_card_re (\<lambda>m. ''[CARD_REDACTED]'')"

definition ip_address_pass :: "string \<Rightarrow> string" where
  "ip_address_pass = replace_all ip_address_re (\<lambda>m. ''[IP_ADDRESS_REDACTED]'')"

definition address_pass :: "string \<Rightarrow> string" where
  "address_pass = replace_all address_re (\<lambda>m. ''[ADDRESS_REDACTED]'')"

text \<open>The six passes one after the other, each on the output of the one before.\<close>

definition sanitize_spec :: "string \<Rightarrow> string" where
  "sanitize_spec content =
     address_pass (ip_address_pass (credit_card_pass (ssn_pass (phone_pass
       (email_pass content)))))"

text \<open>\<^verbatim>\<open>sanitize(sanitize(x))\<close>\<close>

definition sanitize_twice :: "string \<Rightarrow> error + string" where
  "sanitize_twice x = (case sanitize x of Inl e \<Rightarrow> Inl e | Inr y \<Rightarrow> sanitize y)"

section \<open>Shape of the patterns and of the redaction tokens\<close>

text \<open>
  What the proofs about repeated sanitizing need to know of a pattern: it begins and ends
  with \<^verbatim>\<open>\b\<close>, it cannot match the empty string, every match holds a digit or an
  \<^verbatim>\<open>@\<close> (a key character), and no match holds a square bracket. A redaction token
  begins with \<^verbatim>\<open>[\<close>, ends with \<^verbatim>\<open>]\<close> and holds no key character.
\<close>

definition key :: "char \<Rightarrow> bool" where
  "key c = (is_digit c \<or> c = CHR ''@'')"

definition only_keys :: "citem list \<Rightarrow> bool" where
  "only_keys items = (\<forall>c. in_cls True items c \<longrightarrow> key c)"

fun keyed :: "regex \<Rightarrow> bool" where
  "keyed (Set items) = only_keys items"
| "keyed (Seq a b) = (keyed a \<or> keyed b)"
| "keyed (Alt a b) = (keyed a \<and> keyed b)"
| "keyed (Rep lo hi items) = (0 < lo \<and> only_keys items)"
| "keyed (Grp n a) = keyed a"
| "keyed r = False"

fun min_len :: "regex \<Rightarrow> nat" where
  "min_len (Set items) = 1"
| "min_len (Seq a b) = min_len a + min_len b"
| "min_len (Alt a b) = min (min_len a) (min_len b)"
| "min_len (Rep lo hi items) = lo"
| "min_len (Grp n a) = min_len a"
| "min_len r = 0"

fun starts_wordb :: "regex \<Rightarrow> bool" where
  "starts_wordb WordB = True"
| "starts_wordb (Seq a b) = starts_wordb a"
| "starts_wordb r = False"

fun ends_wordb :: "regex \<Rightarrow> bool" where
  "ends_wordb WordB = True"
| "ends_wordb (Seq a b) = ends_wordb b"
| "ends_wordb r = False"

fun avoids :: "char \<Rightarrow> regex \<Rightarrow> bool" where
  "avoids x (Set items) = (\<not> in_cls True items x)"
| "avoids x (Seq a b) = (avoids x a \<and> avoids x b)"
| "avoids x (Alt a b) = (avoids x a \<and> avoids x b)"
| "avoids x (Opt a) = avoids x a"
| "avoids x (Rep lo hi items) = (\<not> in_cls True items x)"
| "avoids x (Grp n a) = avoids x a"
| "avoids x r = True"

definition matches_in :: "regex \<Rightarrow> char option \<Rightarrow> string \<Rightarrow> bool" where
  "matches_in q p t = (\<exists>a xs rest. t = a @ xs @ rest \<and> mt True q (lastopt p a) xs rest)"

definition framed :: "regex \<Rightarrow> bool" where
  "framed q = (starts_wordb q \<and> ends_wordb q \<and> 0 < min_len q \<and> keyed q \<and>
     avoids CHR ''['' q \<and> avoids CHR '']'' q)"

fun render :: "(string \<Rightarrow> string) \<Rightarrow> piece \<Rightarrow> string" where
  "render g (Plain c) = [c]"
| "render g (Hit m cp) = g m"

definition out :: "(string \<Rightarrow> string) \<Rightarrow> piece list \<Rightarrow> string" where
  "out g ps = concat (map (render g) ps)"

definition good_token :: "string \<Rightarrow> bool" where
  "good_token tok =
     (tok \<noteq> [] \<and> hd tok = CHR ''['' \<and> last tok = CHR '']'' \<and> list_all (\<lambda>c. \<not> key c) tok)"

text \<open>
  Every \<^verbatim>\<open>@\<close> of a text stands directly behind a \<^verbatim>\<open>]\<close>; \<open>p\<close> is the character
  before the text.
\<close>

fun at_ok :: "char option \<Rightarrow> string \<Rightarrow> bool" where
  "at_ok p [] = True"
| "at_ok p (c # cs) = ((c = CHR ''@'' \<longrightarrow> p = Some CHR '']'') \<and> at_ok (Some c) cs)"

definition email_token :: "string \<Rightarrow> string" where
  "email_token m = ''[EMAIL_REDACTED]@'' @ domain_of m"

text \<open>
  The address pattern behind its local part, and the texts in which a match of the email scan
  is directly followed by an \<^verbatim>\<open>@\<close>.
\<close>

definition email_tail :: regex where
  "email_tail = seqs [Lit CHR ''@'', Rep 1 None email_domain, Lit CHR ''.'',
     Rep 2 None email_tld, WordB]"

fun at_behind_hit :: "piece list \<Rightarrow> bool" where
  "at_behind_hit [] = False"
| "at_behind_hit (Plain c # ps) = at_behind_hit ps"
| "at_behind_hit (Hit m cp # ps) =
     ((case ps of Plain c # qs \<Rightarrow> c = CHR ''@'' | _ \<Rightarrow> False) \<or> at_behind_hit ps)"

definition email_then_at :: "string \<Rightarrow> bool" where
  "email_then_at x = at_behind_hit (pieces True email_re None x)"

section \<open>The matcher and the relation agree\<close>

lemma lastopt_Nil [simp]: "lastopt p [] = p"
  by (simp add: lastopt_def)

lemma lastopt_Cons [simp]: "lastopt p (x # xs) = lastopt (Some x) xs"
  by (simp add: lastopt_def)

lemma lastopt_append [simp]: "lastopt p (xs @ ys) = lastopt (lastopt p xs) ys"
  by (simp add: lastopt_def)

lemma rep_ends_sound:
  "(p', s') \<in> set (rep_ends P lo hi prev s) \<Longrightarrow>
     \<exists>xs. s = xs @ s' \<and> p' = lastopt prev xs \<and> list_all P xs \<and> lo \<le> length xs \<and>
          at_most hi (length xs)"
proof (induction s arbitrary: lo hi prev)
  case Nil
  then show ?case by (auto simp: at_most_def split: if_splits option.splits)
next
  case (Cons c cs)
  from Cons.prems consider
      (step) "P c" "hi \<noteq> Some 0"
        "(p', s') \<in> set (rep_ends P (lo - 1) (map_option (\<lambda>h. h - 1) hi) (Some c) cs)"
    | (stop) "lo = 0" "p' = prev" "s' = c # cs"
    by (auto split: if_splits)
  then show ?case
  proof cases
    case step
    from Cons.IH [OF step(3)] obtain xs where xs: "cs = xs @ s'" "p' = lastopt (Some c) xs"
      "list_all P xs" "lo - 1 \<le> length xs" "at_most (map_option (\<lambda>h. h - 1) hi) (length xs)"
      by blast
    have "at_most hi (length (c # xs))"
      using xs(5) step(2) by (cases hi) (auto simp: at_most_def)
    with xs step(1) show ?thesis
      by (intro exI [of _ "c # xs"]) auto
  next
    case stop
    then show ?thesis by (intro exI [of _ "[]"]) (simp add: at_most_def split: option.splits)
  qed
qed

lemma rep_ends_complete:
  "list_all P xs \<Longrightarrow> lo \<le> length xs \<Longrightarrow> at_most hi (length xs) \<Longrightarrow>
     (lastopt prev xs, s') \<in> set (rep_ends P lo hi prev (xs @ s'))"
proof (induction xs arbitrary: lo hi prev)
  case Nil
  then show ?case by (cases s') auto
next
  case (Cons x xs)
  have "at_most (map_option (\<lambda>h. h - 1) hi) (length xs)"
    using Cons.prems(3) by (cases hi) (auto simp: at_most_def)
  moreover have "hi \<noteq> Some 0"
    using Cons.prems(3) by (auto simp: at_most_def)
  ultimately show ?case
    using Cons.IH [of "lo - 1" "map_option (\<lambda>h. h - 1) hi" "Some x"] Cons.prems(1,2)
    by auto
qed

lemma ends_sound:
  "(p', s', cp') \<in> set (ends ic r (p, s, cp)) \<Longrightarrow>
     \<exists>xs. s = xs @ s' \<and> p' = lastopt p xs \<and> mt ic r p xs s'"
proof (induction r arbitrary: p s cp p' s' cp')
  case Eps
  then show ?case by simp
next
  case (Set items)
  then show ?case by (auto split: list.splits if_splits)
next
  case WordB
  then show ?case by (auto split: if_splits)
next
  case (Seq a b)
  from Seq.prems obtain p1 s1 cp1 where
    a: "(p1, s1, cp1) \<in> set (ends ic a (p, s, cp))" and
    b: "(p', s', cp') \<in> set (ends ic b (p1, s1, cp1))"
    by auto
  from Seq.IH(1) [OF a] obtain ys where ys: "s = ys @ s1" "p1 = lastopt p ys" "mt ic a p ys s1"
    by blast
  from Seq.IH(2) [OF b] obtain zs where zs: "s1 = zs @ s'" "p' = lastopt p1 zs" "mt ic b p1 zs s'"
    by blast
  from ys zs show ?case
    by (intro exI [of _ "ys @ zs"]) auto
next
  case (Alt a b)
  then show ?case by fastforce
next
  case (Opt a)
  then show ?case by fastforce
next
  case (Rep lo hi items)
  then show ?case by (auto dest: rep_ends_sound)
next
  case (Grp n a)
  then show ?case by fastforce
qed

lemma ends_complete:
  "mt ic r p xs s' \<Longrightarrow> \<exists>cp'. (lastopt p xs, s', cp') \<in> set (ends ic r (p, xs @ s', cp))"
proof (induction r arbitrary: p xs s' cp)
  case Eps
  then show ?case by simp
next
  case (Set items)
  then show ?case by auto
next
  case WordB
  then show ?case by auto
next
  case (Seq a b)
  from Seq.prems obtain ys zs where
    xs: "xs = ys @ zs" and a: "mt ic a p ys (zs @ s')" and b: "mt ic b (lastopt p ys) zs s'"
    by auto
  from Seq.IH(1) [OF a, of cp] obtain cp1 where
    a': "(lastopt p ys, zs @ s', cp1) \<in> set (ends ic a (p, ys @ zs @ s', cp))" by blast
  from Seq.IH(2) [OF b, of cp1] obtain cp2 where
    b': "(lastopt (lastopt p ys) zs, s', cp2) \<in> set (ends ic b (lastopt p ys, zs @ s', cp1))"
    by blast
  from a' b' xs show ?case by (auto intro!: exI [of _ cp2] bexI [OF _ a'])
next
  case (Alt a b)
  then show ?case by fastforce
next
  case (Opt a)
  then show ?case by fastforce
next
  case (Rep lo hi items)
  then show ?case by (auto intro!: rep_ends_complete image_eqI [rotated])
next
  case (Grp n a)
  from Grp.prems have "mt ic a p xs s'" by simp
  from Grp.IH [OF this, of cp] obtain cp1 where
    "(lastopt p xs, s', cp1) \<in> set (ends ic a (p, xs @ s', cp))" by blast
  then show ?case by (auto intro!: exI image_eqI [rotated])
qed

section \<open>Properties of the scan\<close>

lemma pieces_none_Nil:
  "ends ic r (prev, [], []) = [] \<Longrightarrow> pieces ic r prev [] = []"
  by (simp add: pieces.simps [of ic r prev "[]"])

lemma pieces_none_Cons:
  "ends ic r (prev, c # cs, []) = [] \<Longrightarrow>
     pieces ic r prev (c # cs) = Plain c # pieces ic r (Some c) cs"
  by (simp add: pieces.simps [of ic r prev "c # cs"])

lemma pieces_hit:
  "ends ic r (prev, s, []) = (p', s', cp) # sts \<Longrightarrow> length s' < length s \<Longrightarrow>
     pieces ic r prev s = Hit (take (length s - length s') s) cp # pieces ic r p' s'"
  by (simp add: pieces.simps [of ic r prev s])

lemma pieces_empty_Nil:
  "ends ic r (prev, [], []) = (p', s', cp) # sts \<Longrightarrow> pieces ic r prev [] = [Hit [] cp]"
  by (simp add: pieces.simps [of ic r prev "[]"])

lemma pieces_empty_Cons:
  "ends ic r (prev, c # cs, []) = (p', s', cp) # sts \<Longrightarrow> \<not> length s' < length (c # cs) \<Longrightarrow>
     pieces ic r prev (c # cs) = Hit [] cp # Plain c # pieces ic r (Some c) cs"
  by (simp add: pieces.simps [of ic r prev "c # cs"])

text \<open>The match the engine reports, read off the head of the list.\<close>
lemma ends_first:
  assumes "ends ic r (p, s, cp) = (p', s', cp') # rest"
  shows "\<exists>xs. s = xs @ s' \<and> p' = lastopt p xs \<and> mt ic r p xs s' \<and>
           take (length s - length s') s = xs \<and> (length s' < length s) = (xs \<noteq> [])"
proof -
  have "(p', s', cp') \<in> set (ends ic r (p, s, cp))" using assms by simp
  from ends_sound [OF this] obtain xs where "s = xs @ s'" "p' = lastopt p xs" "mt ic r p xs s'"
    by blast
  then show ?thesis by (intro exI [of _ xs]) auto
qed

text \<open>Every hit of a scan is a match of the pattern in some context.\<close>
lemma hits_pieces_mt:
  "(m, cp) \<in> set (hits (pieces ic r prev s)) \<Longrightarrow> \<exists>p rest. mt ic r p m rest"
proof (induction ic r prev s rule: pieces.induct)
  case (1 ic r prev s)
  show ?case
  proof (cases "ends ic r (prev, s, [])")
    case Nil
    show ?thesis
    proof (cases s)
      case Nil
      with \<open>ends ic r (prev, s, []) = []\<close> "1.prems" show ?thesis
        by (simp add: pieces_none_Nil)
    next
      case (Cons c cs)
      with \<open>ends ic r (prev, s, []) = []\<close> "1.prems" have
        "(m, cp) \<in> set (hits (pieces ic r (Some c) cs))"
        by (simp add: pieces_none_Cons)
      with "1.IH"(1) [OF \<open>ends ic r (prev, s, []) = []\<close> Cons] show ?thesis .
    qed
  next
    case (Cons st sts)
    obtain p' s' cp' where st: "st = (p', s', cp')" by (cases st)
    note e = Cons [unfolded st]
    from ends_first [OF e] obtain xs where
      xs: "s = xs @ s'" "mt ic r prev xs s'" "take (length s - length s') s = xs"
          "(length s' < length s) = (xs \<noteq> [])" by blast
    show ?thesis
    proof (cases "length s' < length s")
      case True
      with "1.prems" have
        "(m, cp) = (xs, cp') \<or> (m, cp) \<in> set (hits (pieces ic r p' s'))"
        using xs(3) by (simp add: pieces_hit [OF e True])
      then show ?thesis
        using xs(2) "1.IH"(2) [OF Cons st [symmetric] refl True] by auto
    next
      case False
      then have xe: "xs = []" using xs(4) by simp
      show ?thesis
      proof (cases s)
        case Nil
        with "1.prems" e have "m = []"
          by (simp add: pieces_empty_Nil)
        with xs(2) xe show ?thesis by auto
      next
        case (Cons c cs)
        with "1.prems" e False have
          "(m, cp) = ([], cp') \<or> (m, cp) \<in> set (hits (pieces ic r (Some c) cs))"
          by (simp add: pieces_empty_Cons)
        then show ?thesis
          using xs(2) xe
            "1.IH"(3) [OF \<open>ends ic r (prev, s, []) = st # sts\<close> st [symmetric] refl False Cons]
          by auto
      qed
    qed
  qed
qed

text \<open>A position where the pattern matches makes the scan report a hit.\<close>
lemma pieces_finds:
  "ends ic r (lastopt prev u, s, []) \<noteq> [] \<Longrightarrow> hits (pieces ic r prev (u @ s)) \<noteq> []"
proof (induction u arbitrary: prev)
  case Nil
  then show ?case
    by (cases s) (auto simp: pieces.simps [of ic r prev] split: list.splits)
next
  case (Cons c u)
  show ?case
  proof (cases "ends ic r (prev, (c # u) @ s, [])")
    case Nil
    then show ?thesis
      using Cons.IH [of "Some c"] Cons.prems
      by (simp add: pieces.simps [of ic r prev "c # u @ s"])
  next
    case (Cons st sts)
    then show ?thesis
      by (auto simp: pieces.simps [of ic r prev "c # u @ s"] split: prod.splits)
  qed
qed



section \<open>Characters and the address pattern\<close>

lemma ord_inj [simp]: "(ord c = ord d) = (c = d)"
  by (simp add: ord_def)

lemma ord_less_256: "ord c < 256"
  by (simp add: ord_def)

lemma ord_lower_chr:
  "ord (lower_chr c) = (if 65 \<le> ord c \<and> ord c \<le> 90 then ord c + 32 else ord c)"
  by (simp add: lower_chr_def ord_def)

lemma ord_upper_chr:
  "ord (upper_chr c) = (if 97 \<le> ord c \<and> ord c \<le> 122 then ord c - 32 else ord c)"
  by (auto simp: upper_chr_def ord_def)

lemma in_item_Chr_ord: "in_item (Chr a) c = (ord c = ord a)"
  by simp

lemma ord_at: "ord CHR ''@'' = 64"
  by (simp add: ord_def)

lemma lit_at: "in_cls True [Chr CHR ''@''] c \<Longrightarrow> c = CHR ''@''"
  unfolding in_cls_def in_items_def
  by (auto simp: in_item_Chr_ord ord_at ord_lower_chr ord_upper_chr simp del: in_item.simps ord_inj
      split: if_splits intro: ord_inj [THEN iffD1, OF trans [OF _ ord_at [symmetric]]])

lemma no_at_local: "\<not> in_cls True email_local CHR ''@''"
  by code_simp

lemma no_at_domain: "\<not> in_cls True email_domain CHR ''@''"
  by code_simp

lemma no_at_tld: "\<not> in_cls True email_tld CHR ''@''"
  by code_simp

lemma no_at_dot: "\<not> in_cls True [Chr CHR ''.''] CHR ''@''"
  by code_simp

lemma list_all_not_mem: "list_all P xs \<Longrightarrow> \<not> P a \<Longrightarrow> a \<notin> set xs"
  by (auto simp: list_all_iff)

lemma email_mt_one_at:
  assumes "mt True email_re p m rest"
  shows "\<exists>l d. one_at m l d"
proof -
  from assms obtain l c d c2 t where
    m: "m = l @ [c] @ d @ [c2] @ t" and
    l: "list_all (in_cls True email_local) l" and
    c: "in_cls True [Chr CHR ''@''] c" and
    d: "list_all (in_cls True email_domain) d" and
    c2: "in_cls True [Chr CHR ''.''] c2" and
    t: "list_all (in_cls True email_tld) t"
    by (auto simp: email_re_def Lit_def)
  have "c = CHR ''@''" using c by (rule lit_at)
  moreover have "CHR ''@'' \<notin> set l"
    using l no_at_local by (rule list_all_not_mem)
  moreover have "CHR ''@'' \<notin> set d"
    using d no_at_domain by (rule list_all_not_mem)
  moreover have "CHR ''@'' \<notin> set t"
    using t no_at_tld by (rule list_all_not_mem)
  moreover have "c2 \<noteq> CHR ''@''"
    using c2 no_at_dot by auto
  ultimately have "one_at m l (d @ [c2] @ t)"
    using m by (simp add: one_at_def)
  then show ?thesis by blast
qed

lemma split_chr_no_sep: "sep \<notin> set d \<Longrightarrow> split_chr sep d = [d]"
  by (induction d) auto

lemma split_chr_first:
  "sep \<notin> set l \<Longrightarrow> split_chr sep (l @ sep # d) = l # split_chr sep d"
  by (induction l) auto

lemma one_at_split: "one_at m l d \<Longrightarrow> split_chr CHR ''@'' m = [l, d]"
  by (simp add: one_at_def split_chr_first split_chr_no_sep)

lemma one_at_count: "one_at m l d \<Longrightarrow> count_list m CHR ''@'' = 1"
  by (simp add: one_at_def)

lemma dropWhile_to_sep:
  "sep \<notin> set l \<Longrightarrow> dropWhile (\<lambda>c. c \<noteq> sep) (l @ sep # d) = sep # d"
  by (induction l) auto

lemma one_at_domain: "one_at m l d \<Longrightarrow> tl (dropWhile (\<lambda>c. c \<noteq> CHR ''@'') m) = d"
  by (simp add: one_at_def dropWhile_to_sep)

lemma one_at_repl: "one_at m l d \<Longrightarrow> email_repl m cp = Inr (''[EMAIL_REDACTED]@'' @ d)"
  by (simp add: email_repl_def index_def one_at_split)

lemma email_hit_one_at:
  "(m, cp) \<in> set (hits (pieces True email_re prev s)) \<Longrightarrow> \<exists>l d. one_at m l d"
  using hits_pieces_mt email_mt_one_at by blast

lemma sub_pieces_total:
  assumes "\<And>m cp. (m, cp) \<in> set (hits ps) \<Longrightarrow> f m cp = Inr (g m)"
  shows "sub_pieces f ps =
           Inr (concat (map (\<lambda>p. case p of Plain c \<Rightarrow> [c] | Hit m cp \<Rightarrow> g m) ps))"
  using assms
proof (induction ps)
  case Nil
  then show ?case by simp
next
  case (Cons p ps)
  then show ?case by (cases p) auto
qed

section \<open>The sanitizer meets its description\<close>

subsection \<open>Caseless patterns\<close>

lemma in_item_caseless:
  "caseless_item i \<Longrightarrow> in_item i (lower_chr c) = in_item i c \<and> in_item i (upper_chr c) = in_item i c"
proof (cases i)
  case (Chr a)
  assume "caseless_item i"
  with Chr show ?thesis
    by (auto simp: in_item_Chr_ord ord_lower_chr ord_upper_chr simp del: in_item.simps ord_inj)
next
  case (Rng a b)
  assume "caseless_item i"
  with Rng show ?thesis
    by (auto simp: ord_lower_chr ord_upper_chr)
next
  case CatDigit
  then show ?thesis by (auto simp: is_digit_def ord_lower_chr ord_upper_chr)
next
  case CatSpace
  then show ?thesis by (auto simp: is_space_def Let_def ord_lower_chr ord_upper_chr)
qed

lemma in_cls_caseless:
  "list_all caseless_item items \<Longrightarrow> in_cls True items c = in_cls False items c"
  by (auto simp: in_cls_def in_items_def list_all_iff list_ex_iff in_item_caseless)

lemma ends_caseless: "caseless r \<Longrightarrow> ends True r st = ends False r st"
proof (induction r arbitrary: st)
  case (Set items)
  then show ?case by (cases st) (simp add: in_cls_caseless split: list.splits)
next
  case (Rep lo hi items)
  then have "in_cls True items = in_cls False items"
    by (auto simp: in_cls_caseless)
  then show ?case by (cases st) simp
next
  case (Grp n a)
  then show ?case by (cases st) simp
next
  case (Seq a b)
  then have "ends True b = ends False b" by auto
  with Seq show ?case by simp
next
  case WordB
  then show ?case by (cases st) simp
qed simp_all

lemma pieces_cong_ends:
  "(\<And>st. ends ic r st = ends ic' r st) \<Longrightarrow> pieces ic r prev s = pieces ic' r prev s"
proof (induction ic r prev s rule: pieces.induct)
  case (1 ic r prev s)
  have e: "ends ic r (prev, s, []) = ends ic' r (prev, s, [])" by (rule "1.prems")
  show ?case
  proof (cases "ends ic r (prev, s, [])")
    case Nil
    note n = Nil
    have n': "ends ic' r (prev, s, []) = []" using e Nil by simp
    show ?thesis
    proof (cases s)
      case Nil
      with n n' show ?thesis by (simp add: pieces_none_Nil)
    next
      case (Cons c cs)
      from "1.IH"(1) [OF n Cons "1.prems"] n n' Cons show ?thesis
        by (simp add: pieces_none_Cons)
    qed
  next
    case (Cons st sts)
    obtain p' s' cp' where st: "st = (p', s', cp')" by (cases st)
    note c = Cons [unfolded st]
    have c': "ends ic' r (prev, s, []) = (p', s', cp') # sts" using e c by simp
    show ?thesis
    proof (cases "length s' < length s")
      case True
      from "1.IH"(2) [OF Cons st [symmetric] refl True "1.prems"] show ?thesis
        by (simp add: pieces_hit [OF c True] pieces_hit [OF c' True])
    next
      case False
      show ?thesis
      proof (cases s)
        case Nil
        with c c' show ?thesis by (simp add: pieces_empty_Nil)
      next
        case (Cons x xs)
        from "1.IH"(3) [OF \<open>ends ic r (prev, s, []) = st # sts\<close> st [symmetric] refl False Cons
            "1.prems"]
          c c' False Cons show ?thesis
          by (simp add: pieces_empty_Cons)
      qed
    qed
  qed
qed

lemma pieces_caseless: "caseless r \<Longrightarrow> pieces False r prev s = pieces True r prev s"
  by (rule pieces_cong_ends) (simp add: ends_caseless)

lemma caseless_phone: "caseless phone_re"
  by (simp add: phone_re_def Lit_def dash_dot_def digits09_def ord_def)

lemma caseless_ssn: "caseless ssn_re"
  by (simp add: ssn_re_def Lit_def ord_def)

lemma caseless_credit_card: "caseless credit_card_re"
  by (simp add: credit_card_re_def dash_space_def ord_def)

subsection \<open>The loop of sanitize\<close>

lemma re_sub_const:
  "re_sub True r (const_repl t) s = Inr (replace_all r (\<lambda>m. t) s)"
  unfolding re_sub_def replace_all_def
  by (rule sub_pieces_total) (simp add: const_repl_def)

lemma re_sub_const_caseless:
  "caseless r \<Longrightarrow> re_sub False r (const_repl t) s = Inr (replace_all r (\<lambda>m. t) s)"
  unfolding re_sub_def replace_all_def pieces_caseless
  by (rule sub_pieces_total) (simp add: const_repl_def)

lemma re_sub_email:
  "re_sub True email_re email_repl s = Inr (email_pass s)"
  unfolding re_sub_def email_pass_def replace_all_def
proof (rule sub_pieces_total)
  fix m cp
  assume "(m, cp) \<in> set (hits (pieces True email_re None s))"
  then obtain l d where "one_at m l d" using email_hit_one_at by blast
  then show "email_repl m cp = Inr (''[EMAIL_REDACTED]@'' @ domain_of m)"
    by (simp add: one_at_repl domain_of_def one_at_domain)
qed

lemma upper_ip: "upper ''ip_address'' = ''IP_ADDRESS''"
  by code_simp

lemma upper_address: "upper ''address'' = ''ADDRESS''"
  by code_simp

lemma sanitize_is_spec: "sanitize content = Inr (sanitize_spec content)"
  by (simp add: sanitize_def PATTERNS_def sanitize_step_def sanitize_spec_def
      re_sub_email re_sub_const re_sub_const_caseless caseless_phone caseless_ssn
      caseless_credit_card upper_ip upper_address phone_pass_def ssn_pass_def
      credit_card_pass_def ip_address_pass_def address_pass_def)

subsection \<open>A scan without a match leaves the text as it is\<close>

lemma replace_all_no_hit_aux:
  "hits (pieces ic r prev s) = [] \<Longrightarrow>
     concat (map (\<lambda>p. case p of Plain c \<Rightarrow> [c] | Hit m cp \<Rightarrow> g m) (pieces ic r prev s)) = s"
proof (induction ic r prev s rule: pieces.induct)
  case (1 ic r prev s)
  show ?case
  proof (cases "ends ic r (prev, s, [])")
    case Nil
    note n = Nil
    show ?thesis
    proof (cases s)
      case Nil
      with n show ?thesis by (simp add: pieces_none_Nil)
    next
      case (Cons c cs)
      with n "1.prems" have "hits (pieces ic r (Some c) cs) = []"
        by (simp add: pieces_none_Cons)
      from "1.IH"(1) [OF n Cons this] n Cons show ?thesis
        by (simp add: pieces_none_Cons)
    qed
  next
    case (Cons st sts)
    obtain p' s' cp' where st: "st = (p', s', cp')" by (cases st)
    note c = Cons [unfolded st]
    show ?thesis
    proof (cases "length s' < length s")
      case True
      with "1.prems" show ?thesis by (simp add: pieces_hit [OF c True])
    next
      case False
      show ?thesis
      proof (cases s)
        case Nil
        with c "1.prems" show ?thesis by (simp add: pieces_empty_Nil)
      next
        case (Cons x xs)
        with c False "1.prems" show ?thesis by (simp add: pieces_empty_Cons)
      qed
    qed
  qed
qed

lemma replace_all_no_hit:
  "hits (pieces True r None s) = [] \<Longrightarrow> replace_all r g s = s"
  by (simp add: replace_all_def replace_all_no_hit_aux)

lemma any_match_iff:
  "any_match s = (hits (pieces True email_re None s) \<noteq> [] \<or>
     hits (pieces True phone_re None s) \<noteq> [] \<or> hits (pieces True ssn_re None s) \<noteq> [] \<or>
     hits (pieces True credit_card_re None s) \<noteq> [] \<or>
     hits (pieces True ip_address_re None s) \<noteq> [] \<or>
     hits (pieces True address_re None s) \<noteq> [])"
  by (simp add: any_match_def PATTERNS_def)

lemma sanitize_spec_no_match: "\<not> any_match s \<Longrightarrow> sanitize_spec s = s"
  by (simp add: any_match_iff sanitize_spec_def email_pass_def phone_pass_def ssn_pass_def
      credit_card_pass_def ip_address_pass_def address_pass_def replace_all_no_hit)

subsection \<open>A match depends on its context through the two boundaries only\<close>

lemma word_after_append: "word_after (zs @ r) = (if zs = [] then word_after r else word_after zs)"
  by (cases zs) (simp_all add: word_after_def)

lemma word_before_lastopt:
  "word_before (lastopt p ys) = (if ys = [] then word_before p else word_before (Some (last ys)))"
  by (simp add: lastopt_def)

lemma mt_context:
  "word_before p = word_before p' \<Longrightarrow> word_after rest = word_after rest' \<Longrightarrow>
     mt ic r p xs rest = mt ic r p' xs rest'"
proof (induction r arbitrary: p p' xs rest rest')
  case (Seq a b)
  have "mt ic a p ys (zs @ rest) = mt ic a p' ys (zs @ rest')" for ys zs
    using Seq.prems by (intro Seq.IH(1)) (simp_all add: word_after_append)
  moreover have "mt ic b (lastopt p ys) zs rest = mt ic b (lastopt p' ys) zs rest'" for ys zs
    using Seq.prems by (intro Seq.IH(2)) (simp_all add: word_before_lastopt)
  ultimately show ?case by simp
next
  case WordB
  then show ?case by (simp add: boundary_def)
next
  case (Alt a b)
  then show ?case by (metis mt.simps(5))
next
  case (Opt a)
  then show ?case by (metis mt.simps(6))
next
  case (Grp n a)
  then show ?case by (metis mt.simps(8))
qed simp_all

lemma fullmatch_mt: "fullmatch ic r s \<Longrightarrow> mt ic r None s []"
proof -
  assume "fullmatch ic r s"
  then obtain p cp where "(p, [], cp) \<in> set (ends ic r (None, s, []))"
    by (auto simp: fullmatch_def list_ex_iff)
  from ends_sound [OF this] show ?thesis by auto
qed

lemma match_in_context:
  assumes "fullmatch ic r e" "u = [] \<or> \<not> is_word (last u)" "v = [] \<or> \<not> is_word (hd v)"
  shows "hits (pieces ic r None (u @ e @ v)) \<noteq> []"
proof -
  have b: "word_before None = word_before (lastopt None u)"
    using assms(2) by (auto simp: word_before_def lastopt_def)
  have a: "word_after [] = word_after v"
    using assms(3) by (cases v) (auto simp: word_after_def)
  from fullmatch_mt [OF assms(1)] have "mt ic r (lastopt None u) e v"
    using mt_context [OF b a] by simp
  from ends_complete [OF this, of "[]"] have "ends ic r (lastopt None u, e @ v, []) \<noteq> []"
    by auto
  then show ?thesis by (rule pieces_finds)
qed

section \<open>No match is left behind\<close>

subsection \<open>What the shape of a pattern says of its matches\<close>

lemma mt_min_len: "mt ic r p xs rest \<Longrightarrow> min_len r \<le> length xs"
proof (induction r arbitrary: p xs rest)
  case (Seq a b)
  then show ?case by fastforce
next
  case (Alt a b)
  then show ?case by (auto simp: min_le_iff_disj)
qed auto

lemma mt_starts_wordb: "starts_wordb r \<Longrightarrow> mt ic r p xs rest \<Longrightarrow> boundary p (xs @ rest)"
proof (induction r arbitrary: p xs rest)
  case (Seq a b)
  then show ?case by fastforce
qed auto

lemma mt_ends_wordb: "ends_wordb r \<Longrightarrow> mt ic r p xs rest \<Longrightarrow> boundary (lastopt p xs) rest"
proof (induction r arbitrary: p xs rest)
  case (Seq a b)
  then show ?case by fastforce
qed auto

lemma mt_avoids: "avoids x r \<Longrightarrow> mt True r p xs rest \<Longrightarrow> x \<notin> set xs"
proof (induction r arbitrary: p xs rest)
  case (Seq a b)
  then show ?case by fastforce
next
  case (Rep lo hi items)
  then show ?case by (auto simp: list_all_iff)
qed auto

lemma mt_keyed: "keyed r \<Longrightarrow> mt True r p xs rest \<Longrightarrow> \<exists>c\<in>set xs. key c"
proof (induction r arbitrary: p xs rest)
  case (Seq a b)
  then show ?case by fastforce
next
  case (Rep lo hi items)
  then have "xs \<noteq> []" "list_all (in_cls True items) xs" "only_keys items" by auto
  then show ?case by (cases xs) (auto simp: only_keys_def)
next
  case (Set items)
  then show ?case by (auto simp: only_keys_def)
qed auto

lemma only_keys_digit: "only_keys [CatDigit]"
  by (simp add: only_keys_def key_def in_cls_caseless) (simp add: in_cls_def in_items_def)

lemma only_keys_digits09: "only_keys digits09"
  by (simp add: only_keys_def key_def in_cls_caseless digits09_def ord_def)
     (simp add: in_cls_def in_items_def is_digit_def ord_def)

lemma only_keys_at: "only_keys [Chr CHR ''@'']"
  using lit_at by (auto simp: only_keys_def key_def)

lemma framed_email: "framed email_re"
  unfolding framed_def
  apply (intro conjI)
       apply (simp_all add: email_re_def Lit_def only_keys_at)
   apply code_simp
  apply code_simp
  done

lemma shape_phone:
  "starts_wordb phone_re \<and> ends_wordb phone_re \<and> 0 < min_len phone_re \<and> keyed phone_re"
  by (simp add: phone_re_def Lit_def only_keys_digits09 del: alts.simps)

lemma avoids_open_phone: "avoids CHR ''['' phone_re"
  by code_simp

lemma avoids_close_phone: "avoids CHR '']'' phone_re"
  by code_simp

lemma framed_phone: "framed phone_re"
  using shape_phone avoids_open_phone avoids_close_phone by (simp add: framed_def)

lemma shape_ssn:
  "starts_wordb ssn_re \<and> ends_wordb ssn_re \<and> 0 < min_len ssn_re \<and> keyed ssn_re"
  by (simp add: ssn_re_def Lit_def only_keys_digit del: alts.simps)

lemma avoids_open_ssn: "avoids CHR ''['' ssn_re"
  by code_simp

lemma avoids_close_ssn: "avoids CHR '']'' ssn_re"
  by code_simp

lemma framed_ssn: "framed ssn_re"
  using shape_ssn avoids_open_ssn avoids_close_ssn by (simp add: framed_def)

lemma shape_credit_card:
  "starts_wordb credit_card_re \<and> ends_wordb credit_card_re \<and> 0 < min_len credit_card_re \<and> keyed credit_card_re"
  by (simp add: credit_card_re_def Lit_def only_keys_digit del: alts.simps)

lemma avoids_open_credit_card: "avoids CHR ''['' credit_card_re"
  by code_simp

lemma avoids_close_credit_card: "avoids CHR '']'' credit_card_re"
  by code_simp

lemma framed_credit_card: "framed credit_card_re"
  using shape_credit_card avoids_open_credit_card avoids_close_credit_card by (simp add: framed_def)

lemma shape_ip_address:
  "starts_wordb ip_address_re \<and> ends_wordb ip_address_re \<and> 0 < min_len ip_address_re \<and> keyed ip_address_re"
  by (simp add: ip_address_re_def Lit_def only_keys_digit del: alts.simps)

lemma avoids_open_ip_address: "avoids CHR ''['' ip_address_re"
  by code_simp

lemma avoids_close_ip_address: "avoids CHR '']'' ip_address_re"
  by code_simp

lemma framed_ip_address: "framed ip_address_re"
  using shape_ip_address avoids_open_ip_address avoids_close_ip_address by (simp add: framed_def)

lemma shape_address:
  "starts_wordb address_re \<and> ends_wordb address_re \<and> 0 < min_len address_re \<and> keyed address_re"
  by (simp add: address_re_def Lit_def only_keys_digit del: alts.simps)

lemma avoids_open_address: "avoids CHR ''['' address_re"
  by code_simp

lemma avoids_close_address: "avoids CHR '']'' address_re"
  by code_simp

lemma framed_address: "framed address_re"
  using shape_address avoids_open_address avoids_close_address by (simp add: framed_def)

subsection \<open>A pass with a token\<close>

lemma render_case: "(\<lambda>p. case p of Plain c \<Rightarrow> [c] | Hit m cp \<Rightarrow> g m) = render g"
  by (rule ext) (simp split: piece.split)

lemma replace_all_out: "replace_all r g s = out g (pieces True r None s)"
  by (simp add: replace_all_def out_def render_case)

lemma out_simps [simp]:
  "out g [] = []"
  "out g (Plain c # ps) = c # out g ps"
  "out g (Hit m cp # ps) = g m @ out g ps"
  by (simp_all add: out_def)

lemma not_word_open: "\<not> is_word CHR ''[''"
  by code_simp

lemma not_word_close: "\<not> is_word CHR '']''"
  by code_simp

lemma pieces_cases:
  assumes "0 < min_len r"
  obtains (stop) "s = []" "pieces ic r prev s = []"
    | (plain) c cs where "s = c # cs" "ends ic r (prev, s, []) = []"
        "pieces ic r prev s = Plain c # pieces ic r (Some c) cs"
    | (hit) m s' cp where "s = m @ s'" "m \<noteq> []" "mt ic r prev m s'"
        "pieces ic r prev s = Hit m cp # pieces ic r (lastopt prev m) s'"
proof (cases "ends ic r (prev, s, [])")
  case Nil
  note n = Nil
  show ?thesis
  proof (cases s)
    case Nil
    with n show ?thesis by (intro stop) (simp_all add: pieces_none_Nil)
  next
    case (Cons c cs)
    with n show ?thesis by (intro plain [of c cs]) (simp_all add: pieces_none_Cons)
  qed
next
  case (Cons st sts)
  obtain p' s' cp where st: "st = (p', s', cp)" by (cases st)
  note e = Cons [unfolded st]
  from ends_first [OF e] obtain xs where
    xs: "s = xs @ s'" "p' = lastopt prev xs" "mt ic r prev xs s'"
        "take (length s - length s') s = xs" "(length s' < length s) = (xs \<noteq> [])" by blast
  from mt_min_len [OF xs(3)] assms have ne: "xs \<noteq> []" by auto
  with xs(5) have l: "length s' < length s" by simp
  from pieces_hit [OF e l] xs(2,4) have
    "pieces ic r prev s = Hit xs cp # pieces ic r (lastopt prev xs) s'" by simp
  with xs(1,3) ne show ?thesis by (intro hit [of xs s' cp])
qed

lemma run_prefix:
  assumes P: "0 < min_len P" "starts_wordb P" and tok: "tok \<noteq> []" "hd tok = CHR ''[''"
  shows "out (\<lambda>m. tok) (pieces True P pv s) = xs @ rest \<Longrightarrow> CHR ''['' \<notin> set xs \<Longrightarrow>
     \<exists>rest_in. s = xs @ rest_in \<and>
       (word_after rest = word_after rest_in \<or>
        (\<not> word_after rest \<and> boundary (lastopt pv xs) rest_in))"
proof (induction xs arbitrary: pv s)
  case Nil
  show ?case
  proof (rule pieces_cases [OF P(1), of s True pv], goal_cases)
    case stop: 1
    with Nil show ?thesis by simp
  next
    case plain: (2 c cs)
    with Nil show ?thesis by (auto simp: word_after_def)
  next
    case hit: (3 m s' cp)
    from Nil hit(4) have "rest = tok @ out (\<lambda>m. tok) (pieces True P (lastopt pv m) s')"
      by simp
    with tok have "\<not> word_after rest"
      by (cases tok) (auto simp: word_after_def not_word_open)
    moreover have "boundary pv s"
      using mt_starts_wordb [OF P(2) hit(3)] hit(1) by simp
    ultimately show ?thesis by auto
  qed
next
  case (Cons x xs)
  show ?case
  proof (rule pieces_cases [OF P(1), of s True pv], goal_cases)
    case stop: 1
    with Cons.prems show ?thesis by simp
  next
    case plain: (2 c cs)
    with Cons.prems have x: "x = c" and o: "out (\<lambda>m. tok) (pieces True P (Some c) cs) = xs @ rest"
      by auto
    from Cons.IH [OF o] Cons.prems(2) obtain rest_in where
      "cs = xs @ rest_in"
      "word_after rest = word_after rest_in \<or>
        (\<not> word_after rest \<and> boundary (lastopt (Some c) xs) rest_in)" by auto
    with plain(1) x show ?thesis by auto
  next
    case hit: (3 m s' cp)
    with Cons.prems(1) have "tok @ out (\<lambda>m. tok) (pieces True P (lastopt pv m) s') = x # xs @ rest"
      by simp
    with tok have "x = CHR ''[''" by (cases tok) auto
    with Cons.prems(2) show ?thesis by simp
  qed
qed

lemma transfer:
  assumes Q: "starts_wordb Q" "ends_wordb Q" "0 < min_len Q"
    and m: "mt True Q po xs rest"
    and ctx: "word_before po = word_before pv \<or>
              (\<not> word_before po \<and> boundary pv (xs @ rest_in))"
    and r: "word_after rest = word_after rest_in \<or>
            (\<not> word_after rest \<and> boundary (lastopt pv xs) rest_in)"
  shows "mt True Q pv xs rest_in"
proof -
  from mt_min_len [OF m] Q(3) have ne: "xs \<noteq> []" by auto
  have b1: "boundary po (xs @ rest)" using Q(1) m by (rule mt_starts_wordb)
  have b2: "boundary (lastopt po xs) rest" using Q(2) m by (rule mt_ends_wordb)
  have wa: "word_after (xs @ rest) = word_after (xs @ rest_in)"
    using ne by (simp add: word_after_append)
  have lo: "lastopt po xs = lastopt pv xs"
    using ne by (simp add: lastopt_def)
  have left: "word_before po = word_before pv"
    using ctx b1 wa by (auto simp: boundary_def)
  have right: "word_after rest = word_after rest_in"
    using r b2 lo by (auto simp: boundary_def)
  from mt_context [OF left right] m show ?thesis by simp
qed

lemma framedD:
  assumes "framed q" "mt True q p xs rest"
  shows "xs \<noteq> []" "CHR ''['' \<notin> set xs" "CHR '']'' \<notin> set xs" "\<exists>c\<in>set xs. key c"
proof -
  from assms(1) have f: "0 < min_len q" "keyed q" "avoids CHR ''['' q" "avoids CHR '']'' q"
    by (simp_all add: framed_def)
  from mt_min_len [OF assms(2)] f(1) show "xs \<noteq> []" by auto
  from mt_avoids [OF f(3) assms(2)] show "CHR ''['' \<notin> set xs" .
  from mt_avoids [OF f(4) assms(2)] show "CHR '']'' \<notin> set xs" .
  from mt_keyed [OF f(2) assms(2)] show "\<exists>c\<in>set xs. key c" .
qed

lemma no_match_after_pass:
  fixes N :: "char option \<Rightarrow> string \<Rightarrow> bool"
  assumes P: "0 < min_len P" "starts_wordb P" "ends_wordb P"
    and Q: "framed Q" and tok: "good_token tok"
    and N1: "\<And>p t xs r. N p t \<Longrightarrow> ends True P (p, t, []) = [] \<Longrightarrow> t = xs @ r \<Longrightarrow>
               \<not> mt True Q p xs r"
    and N2: "\<And>p c cs. N p (c # cs) \<Longrightarrow> N (Some c) cs"
    and N3: "\<And>p m t. N p (m @ t) \<Longrightarrow> N (lastopt p m) t"
  shows "N pv s \<Longrightarrow> word_before po = word_before pv \<or> (\<not> word_before po \<and> boundary pv s) \<Longrightarrow>
     \<not> matches_in Q po (out (\<lambda>m. tok) (pieces True P pv s))"
proof (induction s arbitrary: pv po rule: length_induct)
  case (1 s)
  note IH = "1.IH" [rule_format]
  from tok have t: "tok \<noteq> []" "hd tok = CHR ''[''" "last tok = CHR '']''"
    "\<And>c. c \<in> set tok \<Longrightarrow> \<not> key c"
    by (auto simp: good_token_def list_all_iff)
  from Q have Qs: "starts_wordb Q" "ends_wordb Q" "0 < min_len Q"
    by (simp_all add: framed_def)
  show ?case
  proof
    assume "matches_in Q po (out (\<lambda>m. tok) (pieces True P pv s))"
    then obtain a xs rest where
      o: "out (\<lambda>m. tok) (pieces True P pv s) = a @ xs @ rest" and
      m: "mt True Q (lastopt po a) xs rest"
      by (auto simp: matches_in_def)
    note f = framedD [OF Q m]
    show False
    proof (rule pieces_cases [OF P(1), of s True pv], goal_cases)
      case stop: 1
      with o f(1) show ?case by simp
    next
      case plain: (2 c cs)
      show ?case
      proof (cases a)
        case Nil
        with o m have o': "out (\<lambda>m. tok) (pieces True P pv s) = xs @ rest"
          and m': "mt True Q po xs rest" by simp_all
        from run_prefix [OF P(1,2) t(1,2) o' f(2)] obtain rest_in where
          r: "s = xs @ rest_in"
          "word_after rest = word_after rest_in \<or>
             (\<not> word_after rest \<and> boundary (lastopt pv xs) rest_in)" by blast
        from "1.prems"(2) r(1) have
          "word_before po = word_before pv \<or> (\<not> word_before po \<and> boundary pv (xs @ rest_in))"
          by simp
        from transfer [OF Qs m' this r(2)] have "mt True Q pv xs rest_in" .
        with N1 [OF "1.prems"(1) plain(2) r(1)] show ?thesis by simp
      next
        case (Cons c' a')
        with o plain(3) have c: "c' = c"
          and o': "out (\<lambda>m. tok) (pieces True P (Some c) cs) = a' @ xs @ rest" by auto
        from m Cons c have "mt True Q (lastopt (Some c) a') xs rest" by simp
        with o' have "matches_in Q (Some c) (out (\<lambda>m. tok) (pieces True P (Some c) cs))"
          by (auto simp: matches_in_def)
        moreover have "\<not> matches_in Q (Some c) (out (\<lambda>m. tok) (pieces True P (Some c) cs))"
        proof (rule IH)
          show "length cs < length s" using plain(1) by simp
          show "N (Some c) cs" using "1.prems"(1) plain(1) N2 by simp
          show "word_before (Some c) = word_before (Some c) \<or>
                (\<not> word_before (Some c) \<and> boundary (Some c) cs)" by simp
        qed
        ultimately show ?thesis by simp
      qed
    next
      case hit: (3 m' s' cp)
      let ?o' = "out (\<lambda>m. tok) (pieces True P (lastopt pv m') s')"
      have no: "\<not> matches_in Q (Some CHR '']'') ?o'"
      proof (rule IH)
        show "length s' < length s" using hit(1,2) by simp
        show "N (lastopt pv m') s'" using "1.prems"(1) hit(1) N3 by simp
        have "boundary (lastopt pv m') s'" using P(3) hit(3) by (rule mt_ends_wordb)
        then show "word_before (Some CHR '']'') = word_before (lastopt pv m') \<or>
              (\<not> word_before (Some CHR '']'') \<and> boundary (lastopt pv m') s')"
          by (simp add: word_before_def not_word_close)
      qed
      from o hit(4) have "a @ (xs @ rest) = tok @ ?o'" by simp
      then obtain us where
        "a = tok @ us \<and> us @ (xs @ rest) = ?o' \<or> a @ us = tok \<and> xs @ rest = us @ ?o'"
        unfolding append_eq_append_conv2 by blast
      then consider
          (behind) us where "a = tok @ us" "?o' = us @ xs @ rest"
        | (inside) us where "a @ us = tok" "us \<noteq> []" "xs @ rest = us @ ?o'"
        by (cases "us = []") auto
      then show ?case
      proof cases
        case behind
        have "lastopt po tok = Some CHR '']''" using t(1,3) by (simp add: lastopt_def)
        with m behind(1) have "mt True Q (lastopt (Some CHR '']'') us) xs rest"
          by simp
        with behind(2) no show ?thesis by (auto simp: matches_in_def)
      next
        case inside
        from inside(1,2) t(3) have l: "last us = CHR '']''" by (metis last_appendR)
        from inside(3) obtain vs where
          "xs = us @ vs \<and> vs @ rest = ?o' \<or> xs @ vs = us \<and> rest = vs @ ?o'"
          unfolding append_eq_append_conv2 by blast
        then show ?thesis
        proof
          assume "xs = us @ vs \<and> vs @ rest = ?o'"
          with inside(2) l have "CHR '']'' \<in> set xs" by (metis last_in_set set_append UnI1)
          with f(3) show ?thesis by simp
        next
          assume "xs @ vs = us \<and> rest = vs @ ?o'"
          with inside(1) have "set xs \<subseteq> set tok" by auto
          with f(4) t(4) show ?thesis by blast
        qed
      qed
    qed
  qed
qed

lemma pass_clears_own:
  assumes "framed P" "good_token tok"
  shows "\<not> matches_in P None (replace_all P (\<lambda>m. tok) s)"
proof -
  from assms(1) have P: "0 < min_len P" "starts_wordb P" "ends_wordb P"
    by (simp_all add: framed_def)
  have "\<not> matches_in P None (out (\<lambda>m. tok) (pieces True P None s))"
  proof (rule no_match_after_pass [where N = "\<lambda>p t. True", OF P assms(1,2)])
    fix p t xs r
    assume e: "ends True P (p, t, []) = []" and t: "t = xs @ r"
    show "\<not> mt True P p xs r"
    proof
      assume "mt True P p xs r"
      from ends_complete [OF this, of "[]"] e t show False by auto
    qed
  qed simp_all
  then show ?thesis by (simp add: replace_all_out)
qed

lemma matches_in_Cons: "matches_in q (Some c) cs \<Longrightarrow> matches_in q p (c # cs)"
proof -
  assume "matches_in q (Some c) cs"
  then obtain a xs rest where "cs = a @ xs @ rest" "mt True q (lastopt (Some c) a) xs rest"
    by (auto simp: matches_in_def)
  then have "c # cs = (c # a) @ xs @ rest \<and> mt True q (lastopt p (c # a)) xs rest" by simp
  then show ?thesis unfolding matches_in_def by blast
qed

lemma matches_in_append: "matches_in q (lastopt p m) t \<Longrightarrow> matches_in q p (m @ t)"
proof -
  assume "matches_in q (lastopt p m) t"
  then obtain a xs rest where "t = a @ xs @ rest" "mt True q (lastopt (lastopt p m) a) xs rest"
    by (auto simp: matches_in_def)
  then have "m @ t = (m @ a) @ xs @ rest \<and> mt True q (lastopt p (m @ a)) xs rest" by simp
  then show ?thesis unfolding matches_in_def by blast
qed

lemma pass_keeps_clear:
  assumes "framed P" "framed Q" "good_token tok" "\<not> matches_in Q None s"
  shows "\<not> matches_in Q None (replace_all P (\<lambda>m. tok) s)"
proof -
  from assms(1) have P: "0 < min_len P" "starts_wordb P" "ends_wordb P"
    by (simp_all add: framed_def)
  have "\<not> matches_in Q None (out (\<lambda>m. tok) (pieces True P None s))"
  proof (rule no_match_after_pass [where N = "\<lambda>p t. \<not> matches_in Q p t", OF P assms(2,3)])
    fix p t xs r
    assume n: "\<not> matches_in Q p t" and t: "t = xs @ r"
    show "\<not> mt True Q p xs r"
    proof
      assume "mt True Q p xs r"
      then have "t = [] @ xs @ r \<and> mt True Q (lastopt p []) xs r" using t by simp
      then have "matches_in Q p t" unfolding matches_in_def by blast
      with n show False by simp
    qed
  next
    fix p c cs
    assume "\<not> matches_in Q p (c # cs)"
    then show "\<not> matches_in Q (Some c) cs" using matches_in_Cons by blast
  next
    fix p m t
    assume "\<not> matches_in Q p (m @ t)"
    then show "\<not> matches_in Q (lastopt p m) t" using matches_in_append by blast
  next
    show "\<not> matches_in Q None s" by (rule assms(4))
  qed simp
  then show ?thesis by (simp add: replace_all_out)
qed

subsection \<open>The email pass on a text with at most one address sign\<close>

lemma at_ok_append: "at_ok p (xs @ ys) = (at_ok p xs \<and> at_ok (lastopt p xs) ys)"
  by (induction xs arbitrary: p) auto

lemma at_ok_no_at: "CHR ''@'' \<notin> set xs \<Longrightarrow> at_ok p xs"
  by (induction xs arbitrary: p) auto

lemma hits_matches_in:
  assumes "0 < min_len r"
  shows "hits (pieces True r prev s) \<noteq> [] \<Longrightarrow> matches_in r prev s"
proof (induction s arbitrary: prev rule: length_induct)
  case (1 s)
  note IH = "1.IH" [rule_format]
  show ?case
  proof (rule pieces_cases [OF assms, of s True prev], goal_cases)
    case stop: 1
    with "1.prems" show ?case by simp
  next
    case plain: (2 c cs)
    with "1.prems" have "hits (pieces True r (Some c) cs) \<noteq> []" by simp
    from IH [OF _ this] plain(1) have "matches_in r (Some c) cs" by simp
    with plain(1) show ?case by (simp add: matches_in_Cons)
  next
    case hit: (3 m s' cp)
    then have "s = [] @ m @ s' \<and> mt True r (lastopt prev []) m s'" by simp
    then show ?case unfolding matches_in_def by blast
  qed
qed

lemma matches_in_hits:
  "matches_in r None s \<Longrightarrow> hits (pieces True r None s) \<noteq> []"
proof -
  assume "matches_in r None s"
  then obtain a xs rest where s: "s = a @ xs @ rest" and m: "mt True r (lastopt None a) xs rest"
    by (auto simp: matches_in_def)
  from ends_complete [OF m, of "[]"] have "ends True r (lastopt None a, xs @ rest, []) \<noteq> []"
    by auto
  from pieces_finds [OF this] s show ?thesis by simp
qed

lemma out_id: 
  assumes "0 < min_len r"
  shows "out (\<lambda>m. m) (pieces ic r prev s) = s"
proof (induction s arbitrary: prev rule: length_induct)
  case (1 s)
  note IH = "1.IH" [rule_format]
  show ?case
  proof (rule pieces_cases [OF assms, of s ic prev], goal_cases)
    case stop: 1
    then show ?case by simp
  next
    case plain: (2 c cs)
    then show ?case using IH [of cs "Some c"] by simp
  next
    case hit: (3 m s' cp)
    then show ?case using IH [of s' "lastopt prev m"] by simp
  qed
qed

lemma count_out_id:
  "\<forall>h\<in>set (hits ps). count_list (fst h) CHR ''@'' = 1 \<Longrightarrow>
     count_list (out (\<lambda>m. m) ps) CHR ''@'' =
       length (filter (\<lambda>p. p = Plain CHR ''@'') ps) + length (hits ps)"
proof (induction ps)
  case Nil
  then show ?case by simp
next
  case (Cons p ps)
  then show ?case by (cases p) auto
qed

lemma email_mt_shape:
  assumes "mt True email_re p m rest"
  shows "\<exists>l d. one_at m l d \<and> l \<noteq> []"
proof -
  from assms obtain l c d c2 t where
    m: "m = l @ [c] @ d @ [c2] @ t" and
    l: "list_all (in_cls True email_local) l" "1 \<le> length l" and
    c: "in_cls True [Chr CHR ''@''] c" and
    d: "list_all (in_cls True email_domain) d" and
    c2: "in_cls True [Chr CHR ''.''] c2" and
    t: "list_all (in_cls True email_tld) t"
    by (auto simp: email_re_def Lit_def)
  have "c = CHR ''@''" using c by (rule lit_at)
  moreover have "CHR ''@'' \<notin> set l"
    using l(1) no_at_local by (rule list_all_not_mem)
  moreover have "CHR ''@'' \<notin> set d"
    using d no_at_domain by (rule list_all_not_mem)
  moreover have "CHR ''@'' \<notin> set t"
    using t no_at_tld by (rule list_all_not_mem)
  moreover have "c2 \<noteq> CHR ''@''"
    using c2 no_at_dot by auto
  ultimately have "one_at m l (d @ [c2] @ t)"
    using m by (simp add: one_at_def)
  moreover have "l \<noteq> []" using l(2) by auto
  ultimately show ?thesis by blast
qed

lemma at_ok_no_email:
  assumes "at_ok po t"
  shows "\<not> matches_in email_re po t"
proof
  assume "matches_in email_re po t"
  then obtain a xs rest where t: "t = a @ xs @ rest" and m: "mt True email_re (lastopt po a) xs rest"
    by (auto simp: matches_in_def)
  from email_mt_shape [OF m] obtain l d where o: "one_at xs l d" and l: "l \<noteq> []" by blast
  then have xs: "xs = l @ CHR ''@'' # d" by (simp add: one_at_def)
  from assms t xs have "at_ok po ((a @ l) @ CHR ''@'' # d @ rest)" by simp
  then have "lastopt po (a @ l) = Some CHR '']''"
    unfolding at_ok_append by simp
  with l have "last l = CHR '']''" by (simp add: lastopt_def)
  with l xs have "CHR '']'' \<in> set xs" by (metis last_in_set set_append UnI1)
  moreover have "CHR '']'' \<notin> set xs"
    using framedD(3) [OF framed_email m] .
  ultimately show False by simp
qed

lemma at_ok_out:
  assumes "\<And>m cp. (m, cp) \<in> set (hits ps) \<Longrightarrow> \<exists>l d. one_at m l d"
    and "Plain CHR ''@'' \<notin> set ps"
  shows "at_ok po (out email_token ps)"
  using assms
proof (induction ps arbitrary: po)
  case Nil
  then show ?case by simp
next
  case (Cons p ps)
  show ?case
  proof (cases p)
    case (Plain c)
    with Cons.prems(2) have "c \<noteq> CHR ''@''" by auto
    moreover have "at_ok (Some c) (out email_token ps)"
      using Cons.prems Plain by (intro Cons.IH) auto
    ultimately show ?thesis using Plain by simp
  next
    case (Hit m cp)
    with Cons.prems(1) obtain l d where o: "one_at m l d" by fastforce
    then have d: "domain_of m = d" "CHR ''@'' \<notin> set d"
      using one_at_domain [OF o] by (simp_all add: domain_of_def one_at_def)
    have a3: "at_ok (lastopt (lastopt po ''[EMAIL_REDACTED]@'') d) (out email_token ps)"
      using Cons.prems Hit by (intro Cons.IH) auto
    have a1: "at_ok po ''[EMAIL_REDACTED]@''" by simp
    have a2: "at_ok (lastopt po ''[EMAIL_REDACTED]@'') d"
      using d(2) by (rule at_ok_no_at)
    have "email_token m = ''[EMAIL_REDACTED]@'' @ d"
      using d(1) by (simp add: email_token_def)
    then have e: "out email_token (p # ps) = ''[EMAIL_REDACTED]@'' @ d @ out email_token ps"
      using Hit by simp
    show ?thesis
      unfolding e at_ok_append using a1 a2 a3 by blast
  qed
qed

lemma email_pass_out: "email_pass x = out email_token (pieces True email_re None x)"
  by (simp add: email_pass_def replace_all_out email_token_def [abs_def])

lemma email_pass_clears:
  assumes "count_list x CHR ''@'' \<le> 1"
  shows "\<not> matches_in email_re None (email_pass x)"
proof (cases "hits (pieces True email_re None x) = []")
  case True
  then have "email_pass x = x" by (simp add: email_pass_def replace_all_no_hit)
  with True matches_in_hits show ?thesis by fastforce
next
  case False
  let ?ps = "pieces True email_re None x"
  have ml: "0 < min_len email_re" using framed_email by (simp add: framed_def)
  have one: "\<And>m cp. (m, cp) \<in> set (hits ?ps) \<Longrightarrow> \<exists>l d. one_at m l d"
    using email_hit_one_at by blast
  then have "\<forall>h\<in>set (hits ?ps). count_list (fst h) CHR ''@'' = 1"
    using one_at_count by fastforce
  from count_out_id [OF this] out_id [OF ml, of True None x] have
    "count_list x CHR ''@'' = length (filter (\<lambda>p. p = Plain CHR ''@'') ?ps) + length (hits ?ps)"
    by simp
  with assms False have "filter (\<lambda>p. p = Plain CHR ''@'') ?ps = []"
    by (cases "hits ?ps") auto
  then have "Plain CHR ''@'' \<notin> set ?ps"
    by (auto simp: filter_empty_conv)
  from at_ok_out [OF one this] have "at_ok None (email_pass x)"
    by (simp add: email_pass_out)
  then show ?thesis by (rule at_ok_no_email)
qed

subsection \<open>The six passes together\<close>

lemma good_tokens:
  "good_token ''[PHONE_REDACTED]''" "good_token ''[SSN_REDACTED]''"
  "good_token ''[CARD_REDACTED]''" "good_token ''[IP_ADDRESS_REDACTED]''"
  "good_token ''[ADDRESS_REDACTED]''"
  by (simp_all add: good_token_def key_def is_digit_def ord_def)

lemma sanitize_clears_others:
  "\<not> matches_in phone_re None (sanitize_spec x)"
  "\<not> matches_in ssn_re None (sanitize_spec x)"
  "\<not> matches_in credit_card_re None (sanitize_spec x)"
  "\<not> matches_in ip_address_re None (sanitize_spec x)"
  "\<not> matches_in address_re None (sanitize_spec x)"
  unfolding sanitize_spec_def phone_pass_def ssn_pass_def credit_card_pass_def
    ip_address_pass_def address_pass_def
  by (intro pass_keeps_clear pass_clears_own framed_phone framed_ssn framed_credit_card
      framed_ip_address framed_address good_tokens)+

lemma sanitize_clears_email:
  "\<not> matches_in email_re None (email_pass x) \<Longrightarrow> \<not> matches_in email_re None (sanitize_spec x)"
  unfolding sanitize_spec_def phone_pass_def ssn_pass_def credit_card_pass_def
    ip_address_pass_def address_pass_def
  by (intro pass_keeps_clear framed_phone framed_ssn framed_credit_card
      framed_ip_address framed_address framed_email good_tokens)

lemma no_match_any:
  assumes "\<not> matches_in email_re None y" "\<not> matches_in phone_re None y"
    "\<not> matches_in ssn_re None y" "\<not> matches_in credit_card_re None y"
    "\<not> matches_in ip_address_re None y" "\<not> matches_in address_re None y"
  shows "\<not> any_match y"
proof -
  have "hits (pieces True r None y) = []" if "framed r" "\<not> matches_in r None y" for r
    using that hits_matches_in [of r None y] by (auto simp: framed_def)
  with assms show ?thesis
    by (simp add: any_match_iff framed_email framed_phone framed_ssn framed_credit_card
        framed_ip_address framed_address)
qed

lemma sanitize_one_at_clear:
  assumes "count_list x CHR ''@'' \<le> 1"
  shows "\<not> any_match (sanitize_spec x)"
  by (intro no_match_any sanitize_clears_others sanitize_clears_email email_pass_clears assms)

subsection \<open>The email pass when no match is followed by an address sign\<close>

lemma run_prefix_gen:
  assumes P: "0 < min_len P" "starts_wordb P"
    and g: "\<And>m. g m \<noteq> [] \<and> hd (g m) = CHR ''[''"
  shows "out g (pieces True P pv s) = xs @ rest \<Longrightarrow> CHR ''['' \<notin> set xs \<Longrightarrow>
     \<exists>rest_in. s = xs @ rest_in \<and>
       (word_after rest = word_after rest_in \<or>
        (\<not> word_after rest \<and> boundary (lastopt pv xs) rest_in))"
proof (induction xs arbitrary: pv s)
  case Nil
  show ?case
  proof (rule pieces_cases [OF P(1), of s True pv], goal_cases)
    case stop: 1
    with Nil show ?thesis by simp
  next
    case plain: (2 c cs)
    with Nil show ?thesis by (auto simp: word_after_def)
  next
    case hit: (3 m s' cp)
    from Nil hit(4) have "rest = g m @ out g (pieces True P (lastopt pv m) s')"
      by simp
    with g [of m] have "\<not> word_after rest"
      by (cases "g m") (auto simp: word_after_def not_word_open)
    moreover have "boundary pv s"
      using mt_starts_wordb [OF P(2) hit(3)] hit(1) by simp
    ultimately show ?thesis by auto
  qed
next
  case (Cons x xs)
  show ?case
  proof (rule pieces_cases [OF P(1), of s True pv], goal_cases)
    case stop: 1
    with Cons.prems show ?thesis by simp
  next
    case plain: (2 c cs)
    with Cons.prems have x: "x = c" and o: "out g (pieces True P (Some c) cs) = xs @ rest"
      by auto
    from Cons.IH [OF o] Cons.prems(2) obtain rest_in where
      "cs = xs @ rest_in"
      "word_after rest = word_after rest_in \<or>
        (\<not> word_after rest \<and> boundary (lastopt (Some c) xs) rest_in)" by auto
    with plain(1) x show ?thesis by auto
  next
    case hit: (3 m s' cp)
    with Cons.prems(1) have "g m @ out g (pieces True P (lastopt pv m) s') = x # xs @ rest"
      by simp
    with g [of m] have "x = CHR ''[''" by (cases "g m") auto
    with Cons.prems(2) show ?thesis by simp
  qed
qed

lemma transfer_right:
  assumes Q: "ends_wordb Q" and ne: "xs \<noteq> []"
    and m: "mt True Q p xs rest"
    and r: "word_after rest = word_after rest_in \<or>
            (\<not> word_after rest \<and> boundary (lastopt p' xs) rest_in)"
  shows "mt True Q p xs rest_in"
proof -
  have b2: "boundary (lastopt p xs) rest" using Q m by (rule mt_ends_wordb)
  have lo: "lastopt p xs = lastopt p' xs"
    using ne by (simp add: lastopt_def)
  have right: "word_after rest = word_after rest_in"
    using r b2 lo by (auto simp: boundary_def)
  from mt_context [OF refl right] m show ?thesis by simp
qed

lemma email_re_split: "email_re = Seq WordB (Seq (Rep 1 None email_local) email_tail)"
  by (simp add: email_re_def email_tail_def)

lemma mt_email_iff:
  "mt True email_re p xs rest =
     (boundary p (xs @ rest) \<and>
      (\<exists>l t. xs = l @ t \<and> list_all (in_cls True email_local) l \<and> l \<noteq> [] \<and>
             mt True email_tail (lastopt p l) t rest))"
  unfolding email_re_split
  by (auto simp: at_most_def Suc_le_eq)

lemma ends_wordb_tail: "ends_wordb email_tail"
  by (simp add: email_tail_def Lit_def)

lemma mt_tail_at:
  assumes "mt True email_tail q t rest"
  shows "\<exists>d. t = CHR ''@'' # d"
proof -
  from assms obtain c zs where "t = [c] @ zs" "in_cls True [Chr CHR ''@''] c"
    by (auto simp: email_tail_def Lit_def)
  with lit_at show ?thesis by auto
qed

lemma local_no_at: "list_all (in_cls True email_local) l \<Longrightarrow> CHR ''@'' \<notin> set l"
  using no_at_local by (auto simp: list_all_iff)

lemma email_mt_domain:
  assumes "mt True email_re p m rest"
  shows "\<exists>l d. one_at m l d \<and> d \<noteq> []"
proof -
  from assms obtain l c d c2 t where
    m: "m = l @ [c] @ d @ [c2] @ t" and
    l: "list_all (in_cls True email_local) l" and
    c: "in_cls True [Chr CHR ''@''] c" and
    d: "list_all (in_cls True email_domain) d" and
    c2: "in_cls True [Chr CHR ''.''] c2" and
    t: "list_all (in_cls True email_tld) t"
    by (auto simp: email_re_def Lit_def)
  have "c = CHR ''@''" using c by (rule lit_at)
  moreover have "CHR ''@'' \<notin> set l"
    using l no_at_local by (rule list_all_not_mem)
  moreover have "CHR ''@'' \<notin> set d"
    using d no_at_domain by (rule list_all_not_mem)
  moreover have "CHR ''@'' \<notin> set t"
    using t no_at_tld by (rule list_all_not_mem)
  moreover have "c2 \<noteq> CHR ''@''"
    using c2 no_at_dot by auto
  ultimately have "one_at m l (d @ [c2] @ t)"
    using m by (simp add: one_at_def)
  then show ?thesis by blast
qed

text \<open>A run of local characters that ends at an \<^verbatim>\<open>@\<close> does not pass a \<^verbatim>\<open>]\<close>.\<close>
lemma run_meets_bracket:
  assumes "l @ CHR ''@'' # r = w @ CHR '']'' # r'"
    and "CHR ''@'' \<notin> set w" and "CHR '']'' \<notin> set l"
  shows False
proof -
  from assms(1) obtain v where
    "l = w @ v \<and> v @ CHR ''@'' # r = CHR '']'' # r' \<or>
     l @ v = w \<and> CHR ''@'' # r = v @ CHR '']'' # r'"
    unfolding append_eq_append_conv2 by blast
  then show False
  proof
    assume a: "l = w @ v \<and> v @ CHR ''@'' # r = CHR '']'' # r'"
    then show False using assms(3) by (cases v) auto
  next
    assume a: "l @ v = w \<and> CHR ''@'' # r = v @ CHR '']'' # r'"
    then show False using assms(2) by (cases v) auto
  qed
qed

lemma token_no_start:
  assumes aw: "a @ w = ''[EMAIL_REDACTED]@''" and w: "w \<noteq> []"
    and eq: "l @ CHR ''@'' # r = w @ R"
    and l: "l \<noteq> []" "CHR ''@'' \<notin> set l" "CHR '']'' \<notin> set l"
  shows False
proof -
  from aw have "a @ w = ''[EMAIL_REDACTED'' @ '']@''" by simp
  then obtain v where
    "a = ''[EMAIL_REDACTED'' @ v \<and> v @ w = '']@'' \<or>
     a @ v = ''[EMAIL_REDACTED'' \<and> w = v @ '']@''"
    unfolding append_eq_append_conv2 by blast
  then show False
  proof
    assume "a @ v = ''[EMAIL_REDACTED'' \<and> w = v @ '']@''"
    then have s: "set v \<subseteq> set ''[EMAIL_REDACTED''" and w': "w = v @ '']@''"
      by (metis set_append Un_upper2, simp)
    from s have nv: "CHR ''@'' \<notin> set v" by auto
    from eq w' have e: "l @ CHR ''@'' # r = v @ CHR '']'' # (CHR ''@'' # R)" by simp
    from run_meets_bracket [OF e nv l(3)] show False .
  next
    assume a: "a = ''[EMAIL_REDACTED'' @ v \<and> v @ w = '']@''"
    then have vw: "v @ w = [CHR '']'', CHR ''@'']" by simp
    show False
    proof (cases v)
      case Nil
      with vw eq have e: "l @ CHR ''@'' # r = [] @ CHR '']'' # (CHR ''@'' # R)" by simp
      have "CHR ''@'' \<notin> set ([] :: string)" by simp
      from run_meets_bracket [OF e this l(3)] show False .
    next
      case (Cons c v')
      with vw w have "w = [CHR ''@'']" by (cases v') auto
      with eq l(1) have "hd l = CHR ''@''" by (cases l) auto
      with l(1,2) show False by (cases l) auto
    qed
  qed
qed

lemma email_pass_clears_gen:
  "\<not> at_behind_hit (pieces True email_re pv s) \<Longrightarrow>
     \<not> matches_in email_re pv (out email_token (pieces True email_re pv s))"
proof (induction s arbitrary: pv rule: length_induct)
  case (1 s)
  note IH = "1.IH" [rule_format]
  have ml: "0 < min_len email_re" and sw: "starts_wordb email_re" and ew: "ends_wordb email_re"
    using framed_email by (simp_all add: framed_def)
  have g: "\<And>m. email_token m \<noteq> [] \<and> hd (email_token m) = CHR ''[''"
    by (simp add: email_token_def)
  show ?case
  proof
    assume "matches_in email_re pv (out email_token (pieces True email_re pv s))"
    then obtain a xs rest where
      o: "out email_token (pieces True email_re pv s) = a @ xs @ rest" and
      m: "mt True email_re (lastopt pv a) xs rest"
      by (auto simp: matches_in_def)
    note f = framedD [OF framed_email m]
    from m obtain l t where xs: "xs = l @ t" and
      l: "list_all (in_cls True email_local) l" "l \<noteq> []" and
      tl: "mt True email_tail (lastopt (lastopt pv a) l) t rest"
      unfolding mt_email_iff by blast
    from mt_tail_at [OF tl] obtain d' where t: "t = CHR ''@'' # d'" by blast
    have la: "CHR ''@'' \<notin> set l" using l(1) by (rule local_no_at)
    have lb: "CHR '']'' \<notin> set l" using f(3) xs by simp
    show False
    proof (rule pieces_cases [OF ml, of s True pv], goal_cases)
      case stop: 1
      with o f(1) show ?case by simp
    next
      case plain: (2 c cs)
      show ?case
      proof (cases a)
        case Nil
        with o m have o': "out email_token (pieces True email_re pv s) = xs @ rest"
          and m': "mt True email_re pv xs rest" by simp_all
        from run_prefix_gen [OF ml sw g o' f(2)] obtain rest_in where
          r: "s = xs @ rest_in"
          "word_after rest = word_after rest_in \<or>
             (\<not> word_after rest \<and> boundary (lastopt pv xs) rest_in)" by blast
        have "word_before pv = word_before pv \<or>
              (\<not> word_before pv \<and> boundary pv (xs @ rest_in))" by simp
        from transfer [OF sw ew ml m' this r(2)] have "mt True email_re pv xs rest_in" .
        from ends_complete [OF this, of "[]"] plain(2) r(1) show ?thesis by auto
      next
        case (Cons c' a')
        with o plain(3) have c: "c' = c"
          and o': "out email_token (pieces True email_re (Some c) cs) = a' @ xs @ rest" by auto
        from m Cons c have "mt True email_re (lastopt (Some c) a') xs rest" by simp
        with o' have "matches_in email_re (Some c) (out email_token (pieces True email_re (Some c) cs))"
          by (auto simp: matches_in_def)
        moreover have "\<not> matches_in email_re (Some c) (out email_token (pieces True email_re (Some c) cs))"
        proof (rule IH)
          show "length cs < length s" using plain(1) by simp
          show "\<not> at_behind_hit (pieces True email_re (Some c) cs)"
            using "1.prems" plain(3) by simp
        qed
        ultimately show ?thesis by simp
      qed
    next
      case hit: (3 m' s' cp)
      let ?o' = "out email_token (pieces True email_re (lastopt pv m') s')"
      from email_mt_domain [OF hit(3)] obtain l0 d where od: "one_at m' l0 d" "d \<noteq> []" by blast
      have dom: "domain_of m' = d" using one_at_domain [OF od(1)] by (simp add: domain_of_def)
      have da: "CHR ''@'' \<notin> set d" using od(1) by (simp add: one_at_def)
      have pm: "lastopt pv m' = Some (last d)" using od by (simp add: one_at_def lastopt_def)
      have et: "email_token m' = ''[EMAIL_REDACTED]@'' @ d"
        using dom by (simp add: email_token_def)
      from o hit(4) et have oo: "a @ (xs @ rest) = (''[EMAIL_REDACTED]@'' @ d) @ ?o'" by simp
      have nb: "\<not> at_behind_hit (pieces True email_re (lastopt pv m') s')"
        using "1.prems" hit(4) by simp
      have first_at: "?o' \<noteq> CHR ''@'' # R" for R
      proof (rule pieces_cases [OF ml, of s' True "lastopt pv m'"], goal_cases)
        case 1
        then show ?case by simp
      next
        case (2 c cs)
        with "1.prems" hit(4) have "c \<noteq> CHR ''@''" by auto
        with 2 show ?case by simp
      next
        case (3 m2 s2 cp2)
        then show ?case by (simp add: email_token_def)
      qed
      from oo obtain us where
        "a = (''[EMAIL_REDACTED]@'' @ d) @ us \<and> us @ (xs @ rest) = ?o' \<or>
         a @ us = ''[EMAIL_REDACTED]@'' @ d \<and> xs @ rest = us @ ?o'"
        unfolding append_eq_append_conv2 by blast
      then consider
          (behind) us where "a = (''[EMAIL_REDACTED]@'' @ d) @ us" "?o' = us @ xs @ rest"
        | (inside) us where "a @ us = ''[EMAIL_REDACTED]@'' @ d" "us \<noteq> []" "xs @ rest = us @ ?o'"
        by (cases "us = []") auto
      then show ?case
      proof cases
        case behind
        have "lastopt pv a = lastopt (lastopt pv m') us"
          unfolding behind(1) lastopt_append pm using od(2) by (simp add: lastopt_def)
        with m behind(2) have "matches_in email_re (lastopt pv m') ?o'"
          by (auto simp: matches_in_def)
        moreover have "\<not> matches_in email_re (lastopt pv m') ?o'"
        proof (rule IH)
          show "length s' < length s" using hit(1,2) by simp
          show "\<not> at_behind_hit (pieces True email_re (lastopt pv m') s')" by (rule nb)
        qed
        ultimately show ?thesis by simp
      next
        case inside
        from inside(1) obtain v where
          "a = ''[EMAIL_REDACTED]@'' @ v \<and> v @ us = d \<or>
           a @ v = ''[EMAIL_REDACTED]@'' \<and> us = v @ d"
          unfolding append_eq_append_conv2 by blast
        then consider
            (indom) v where "a = ''[EMAIL_REDACTED]@'' @ v" "v @ us = d"
          | (intok) v where "a @ v = ''[EMAIL_REDACTED]@''" "v \<noteq> []" "us = v @ d"
          by (cases "v = []") auto
        then show ?thesis
        proof cases
          case intok
          from inside(3) intok(3) xs t have "l @ CHR ''@'' # (d' @ rest) = v @ (d @ ?o')"
            by simp
          from token_no_start [OF intok(1,2) this l(2) la lb] show ?thesis .
        next
          case indom
          have ua: "CHR ''@'' \<notin> set us" using indom(2) da by auto
          from inside(3) xs t have "l @ (CHR ''@'' # d' @ rest) = us @ ?o'" by simp
          then obtain w where
            "l = us @ w \<and> w @ (CHR ''@'' # d' @ rest) = ?o' \<or>
             l @ w = us \<and> CHR ''@'' # d' @ rest = w @ ?o'"
            unfolding append_eq_append_conv2 by blast
          then have "\<exists>l2. l = us @ l2 \<and> ?o' = l2 @ CHR ''@'' # d' @ rest"
          proof
            assume "l = us @ w \<and> w @ (CHR ''@'' # d' @ rest) = ?o'"
            then show ?thesis by auto
          next
            assume a: "l @ w = us \<and> CHR ''@'' # d' @ rest = w @ ?o'"
            show ?thesis
            proof (cases w)
              case Nil
              with a show ?thesis by auto
            next
              case (Cons c w')
              with a have "CHR ''@'' \<in> set us" by auto
              with ua show ?thesis by simp
            qed
          qed
          then obtain l2 where l2: "l = us @ l2" "?o' = l2 @ CHR ''@'' # d' @ rest" by blast
          show ?thesis
          proof (cases "l2 = []")
            case True
            with l2(2) first_at show ?thesis by simp
          next
            case False
            have o2: "?o' = (l2 @ t) @ rest" using l2(2) t by simp
            have nb2: "CHR ''['' \<notin> set (l2 @ t)" using f(2) xs l2(1) by auto
            from run_prefix_gen [OF ml sw g o2 nb2] obtain rest_in where
              r: "s' = (l2 @ t) @ rest_in"
              "word_after rest = word_after rest_in \<or>
                 (\<not> word_after rest \<and> boundary (lastopt (lastopt pv m') (l2 @ t)) rest_in)"
              by blast
            have tne: "t \<noteq> []" using t by simp
            from transfer_right [OF ends_wordb_tail tne tl r(2) [unfolded lastopt_append]]
            have "mt True email_tail (lastopt (lastopt pv a) l) t rest_in" .
            moreover have "lastopt (lastopt pv a) l = lastopt (lastopt pv m') l2"
              using l2(1) False by (simp add: lastopt_def)
            moreover have "boundary (lastopt pv m') ((l2 @ t) @ rest_in)"
              using mt_ends_wordb [OF ew hit(3)] r(1) by simp
            moreover have "list_all (in_cls True email_local) l2"
              using l(1) l2(1) by simp
            ultimately have "mt True email_re (lastopt pv m') (l2 @ t) rest_in"
              unfolding mt_email_iff using False by auto
            from ends_complete [OF this, of "[]"] r(1) have
              en: "ends True email_re (lastopt pv m', s', []) \<noteq> []" by auto
            show ?thesis
            proof (rule pieces_cases [OF ml, of s' True "lastopt pv m'"], goal_cases)
              case 1
              with r(1) False show ?case by simp
            next
              case (2 c cs)
              with en show ?case by simp
            next
              case (3 m2 s2 cp2)
              with l2(2) False have "hd l2 = CHR ''[''"
                by (cases l2) (auto simp: email_token_def)
              with False have "CHR ''['' \<in> set l2" by (cases l2) auto
              with f(2) xs l2(1) show ?case by simp
            qed
          qed
        qed
      qed
    qed
  qed
qed

lemma email_pass_clears_then_at:
  "\<not> email_then_at x \<Longrightarrow> \<not> matches_in email_re None (email_pass x)"
  using email_pass_clears_gen [of None x] by (simp add: email_then_at_def email_pass_out)

subsection \<open>When a second run changes the text\<close>

lemma count_out_grow:
  assumes "\<forall>h\<in>set (hits ps). CHR ''['' \<notin> set (fst h)"
    and "\<And>m. 1 \<le> count_list (g m) CHR ''[''"
  shows "count_list (out (\<lambda>m. m) ps) CHR ''['' + length (hits ps)
           \<le> count_list (out g ps) CHR ''[''"
  using assms(1)
proof (induction ps)
  case Nil
  then show ?case by simp
next
  case (Cons p ps)
  show ?case
  proof (cases p)
    case (Plain c)
    with Cons show ?thesis by simp
  next
    case (Hit m cp)
    with Cons.prems have "count_list m CHR ''['' = 0" by (simp add: count_list_0_iff)
    with Cons Hit assms(2) [of m] show ?thesis by simp
  qed
qed

lemma pass_grows:
  assumes "framed P" and "\<And>m. 1 \<le> count_list (g m) CHR ''[''"
  shows "count_list s CHR ''['' + length (hits (pieces True P None s))
           \<le> count_list (replace_all P g s) CHR ''[''"
proof -
  from assms(1) have ml: "0 < min_len P" and av: "avoids CHR ''['' P"
    by (simp_all add: framed_def)
  have "\<forall>h\<in>set (hits (pieces True P None s)). CHR ''['' \<notin> set (fst h)"
  proof
    fix h
    assume "h \<in> set (hits (pieces True P None s))"
    then have "(fst h, snd h) \<in> set (hits (pieces True P None s))" by simp
    from hits_pieces_mt [OF this] obtain p rest where "mt True P p (fst h) rest" by blast
    from mt_avoids [OF av this] show "CHR ''['' \<notin> set (fst h)" .
  qed
  from count_out_grow [OF this assms(2)] out_id [OF ml, of True None s]
  show ?thesis by (simp add: replace_all_out)
qed

lemma pass_grows_le:
  assumes "framed P" and "1 \<le> count_list tok CHR ''[''"
  shows "count_list s CHR ''['' \<le> count_list (replace_all P (\<lambda>m. tok) s) CHR ''[''"
  using pass_grows [OF assms(1), of "\<lambda>m. tok" s] assms(2) by simp

lemma sanitize_spec_grows:
  "count_list y CHR ''['' + length (hits (pieces True email_re None y))
     \<le> count_list (sanitize_spec y) CHR ''[''"
proof -
  have "count_list y CHR ''['' + length (hits (pieces True email_re None y))
          \<le> count_list (email_pass y) CHR ''[''"
    unfolding email_pass_def by (rule pass_grows [OF framed_email]) simp
  also have "\<dots> \<le> count_list (phone_pass (email_pass y)) CHR ''[''"
    unfolding phone_pass_def by (rule pass_grows_le [OF framed_phone]) simp
  also have "\<dots> \<le> count_list (ssn_pass (phone_pass (email_pass y))) CHR ''[''"
    unfolding ssn_pass_def by (rule pass_grows_le [OF framed_ssn]) simp
  also have "\<dots> \<le> count_list (credit_card_pass (ssn_pass (phone_pass (email_pass y))))
      CHR ''[''"
    unfolding credit_card_pass_def by (rule pass_grows_le [OF framed_credit_card]) simp
  also have "\<dots> \<le> count_list (ip_address_pass (credit_card_pass (ssn_pass (phone_pass
      (email_pass y))))) CHR ''[''"
    unfolding ip_address_pass_def by (rule pass_grows_le [OF framed_ip_address]) simp
  also have "\<dots> \<le> count_list (sanitize_spec y) CHR ''[''"
    unfolding sanitize_spec_def address_pass_def by (rule pass_grows_le [OF framed_address]) simp
  finally show ?thesis .
qed

lemma sanitize_changes_email:
  "hits (pieces True email_re None y) \<noteq> [] \<Longrightarrow> sanitize_spec y \<noteq> y"
  using sanitize_spec_grows [of y] by (cases "hits (pieces True email_re None y)") auto

lemma hits_clear: "framed r \<Longrightarrow> \<not> matches_in r None y \<Longrightarrow> hits (pieces True r None y) = []"
  using hits_matches_in [of r None y] by (auto simp: framed_def)

lemma sanitize_leaves_email_only:
  "hits (pieces True phone_re None (sanitize_spec x)) = []"
  "hits (pieces True ssn_re None (sanitize_spec x)) = []"
  "hits (pieces True credit_card_re None (sanitize_spec x)) = []"
  "hits (pieces True ip_address_re None (sanitize_spec x)) = []"
  "hits (pieces True address_re None (sanitize_spec x)) = []"
  by (intro hits_clear sanitize_clears_others framed_phone framed_ssn framed_credit_card
      framed_ip_address framed_address)+

lemma any_match_email_only:
  "any_match (sanitize_spec x) = (hits (pieces True email_re None (sanitize_spec x)) \<noteq> [])"
  by (simp add: any_match_iff sanitize_leaves_email_only)

lemma sanitize_then_at_clear:
  assumes "\<not> email_then_at x"
  shows "\<not> any_match (sanitize_spec x)"
  by (intro no_match_any sanitize_clears_others sanitize_clears_email
      email_pass_clears_then_at assms)

section \<open>Detection\<close>

lemma detect_loop_append:
  "detect_loop ps content acc = acc @ concat (map (\<lambda>p. detect_one p content) ps)"
  by (induction ps arbitrary: acc) simp_all

lemma detect_patterns_concat:
  "detect_patterns content = concat (map (\<lambda>p. detect_one p content) PATTERNS)"
  by (simp add: detect_patterns_def detect_loop_append)

lemma length_detect_one:
  "length (detect_one (n, r) content) = length (hits (pieces True r None content))"
  by (simp add: detect_one_def findall_def Let_def)

lemma detect_one_empty:
  "(detect_one p content = []) = (hits (pieces True (snd p) None content) = [])"
  using length_detect_one [of "fst p" "snd p" content] by (metis length_0_conv prod.collapse)

lemma detect_patterns_any: "(detect_patterns content \<noteq> []) = any_match content"
  by (simp add: detect_patterns_concat any_match_def detect_one_empty list_ex_iff)

lemma detect_one_names: "x \<in> set (detect_one (n, r) content) \<Longrightarrow> fst x = n"
  by (auto simp: detect_one_def split: matches.splits)

lemma detect_address: "detect_patterns ''a@b.com'' = [(''email'', ''Found email: a@***om'')]"
  by code_simp

lemma detect_trailing_digit: "detect_patterns ''a@b.com1'' = []"
  by code_simp

lemma fullmatch_address: "fullmatch True email_re ''a@b.com''"
  by code_simp

lemma hits_address: "hits (pieces True email_re None ''a@b.com'') = [(''a@b.com'', [])]"
  by code_simp

lemma sanitize_contact:
  "sanitize ''contact me at a@b.com'' = Inr ''contact me at [EMAIL_REDACTED]@b.com''"
  by code_simp

lemma sanitize_two_addresses:
  "sanitize ''a@b.com, c@d.org'' = Inr ''[EMAIL_REDACTED]@b.com, [EMAIL_REDACTED]@d.org''"
  by code_simp

lemma no_then_at_two_addresses: "\<not> email_then_at ''a@b.com, c@d.org''"
  by code_simp

lemma then_at_nested: "email_then_at ''a@b.co@d.org''"
  by code_simp

section \<open>The claims\<close>

text \<open>
  C1. The claim: \<^verbatim>\<open>sanitize("Call me at (415) 555-1212")\<close> contains \<^verbatim>\<open>[PHONE_REDACTED]\<close>.
  The separators of the phone pattern are \<^verbatim>\<open>[-.]?\<close>, which does not accept the space
  behind \<^verbatim>\<open>(415)\<close>: no pattern matches, and the text comes back unchanged, without the
  token. The repository's own test \<^verbatim>\<open>test_sanitizes_phone\<close> asserts the token for this
  very input.
\<close>

theorem sanitize_parenthesized_phone:
  "sanitize ''Call me at (415) 555-1212'' = Inr ''Call me at (415) 555-1212'' \<and>
   \<not> contains ''[PHONE_REDACTED]'' ''Call me at (415) 555-1212'' \<and>
   hits (pieces False phone_re None ''Call me at (415) 555-1212'') = []"
  by code_simp

text \<open>
  C2. The claim: with the engine enabled and a threshold of at least 1.0 every text is safe
  to send, also at a threshold of exactly 1.0. The comparison is strict
  (\<^verbatim>\<open>confidence < self.threshold\<close>), so at 1.0 a text with PII is not safe.
\<close>

theorem validate_threshold_one_unsafe:
  "enabled \<lparr>enabled = True, threshold = 1\<rparr> \<and>
   threshold \<lparr>enabled = True, threshold = 1\<rparr> \<ge> 1 \<and>
   has_pii (validate \<lparr>enabled = True, threshold = 1\<rparr> ''a@b.com'') \<and>
   confidence (validate \<lparr>enabled = True, threshold = 1\<rparr> ''a@b.com'') = 1 \<and>
   \<not> safe_to_send (validate \<lparr>enabled = True, threshold = 1\<rparr> ''a@b.com'')"
  by (simp add: validate_def Let_def detect_address)

text \<open>
  C2, amended: with the engine enabled and a threshold above 1.0, every text is safe to
  send, with or without PII.
\<close>

theorem validate_threshold_above:
  "enabled self \<Longrightarrow> 1 < threshold self \<Longrightarrow> safe_to_send (validate self content)"
  by (simp add: validate_def Let_def)

theorem validate_threshold_above_witness:
  "enabled \<lparr>enabled = True, threshold = 2\<rparr> \<and> 1 < threshold \<lparr>enabled = True, threshold = 2\<rparr> \<and>
   has_pii (validate \<lparr>enabled = True, threshold = 2\<rparr> ''a@b.com'') \<and>
   safe_to_send (validate \<lparr>enabled = True, threshold = 2\<rparr> ''a@b.com'')"
proof -
  have e: "enabled \<lparr>enabled = True, threshold = 2\<rparr>" by simp
  have t: "1 < threshold \<lparr>enabled = True, threshold = 2\<rparr>" by simp
  have h: "has_pii (validate \<lparr>enabled = True, threshold = 2\<rparr> ''a@b.com'')"
    by (simp add: validate_def Let_def detect_address)
  from validate_threshold_above [OF e t, of "''a@b.com''"] e t h show ?thesis by blast
qed

text \<open>
  C3. With the engine enabled, the confidence of the result is 1.0 if some detector has a
  match in the text and 0.0 otherwise, and \<open>safe_to_send\<close> is
  \<open>\<not> has_pii \<or> confidence < threshold\<close>.
\<close>

theorem validate_confidence:
  "enabled self \<Longrightarrow>
     confidence (validate self content) = (if any_match content then 1 else 0) \<and>
     safe_to_send (validate self content) =
       (\<not> has_pii (validate self content) \<or>
        confidence (validate self content) < threshold self)"
  by (simp add: validate_def Let_def detect_patterns_any [symmetric])

theorem validate_confidence_witness:
  "enabled \<lparr>enabled = True, threshold = 4 / 5\<rparr> \<and> any_match ''a@b.com'' \<and>
   confidence (validate \<lparr>enabled = True, threshold = 4 / 5\<rparr> ''a@b.com'') = 1 \<and>
   \<not> safe_to_send (validate \<lparr>enabled = True, threshold = 4 / 5\<rparr> ''a@b.com'')"
proof -
  have e: "enabled \<lparr>enabled = True, threshold = 4 / 5\<rparr>" by simp
  have a: "any_match ''a@b.com''"
    using detect_patterns_any [of "''a@b.com''"] by (simp add: detect_address)
  have h: "has_pii (validate \<lparr>enabled = True, threshold = 4 / 5\<rparr> ''a@b.com'')"
    by (simp add: validate_def Let_def detect_address)
  from validate_confidence [OF e, of "''a@b.com''"] a h e show ?thesis by simp
qed

text \<open>
  C4. The claim: every text that contains a substring matching the email pattern is reported
  with \<open>has_pii\<close> and the type \<^verbatim>\<open>email\<close>. The pattern begins and ends with \<^verbatim>\<open>\b\<close>, which
  is judged in the text: \<^verbatim>\<open>a@b.com1\<close> contains the address \<^verbatim>\<open>a@b.com\<close>, but the digit
  behind it leaves no boundary, and nothing is detected.
\<close>

theorem email_followed_by_digit_undetected:
  "fullmatch True email_re ''a@b.com'' \<and>
   \<not> has_pii (validate \<lparr>enabled = True, threshold = 4 / 5\<rparr> ('''' @ ''a@b.com'' @ ''1'')) \<and>
   ''email'' \<notin> set (pii_types (validate \<lparr>enabled = True, threshold = 4 / 5\<rparr>
                                   ('''' @ ''a@b.com'' @ ''1'')))"
  by (simp add: fullmatch_address validate_def Let_def detect_trailing_digit)

text \<open>
  C4, amended: every text that contains a substring matching the email pattern, with no word
  character immediately before it and none immediately behind it in the text, is reported
  by an enabled engine with \<open>has_pii\<close> and the type \<^verbatim>\<open>email\<close>.
\<close>

theorem email_detected:
  assumes "enabled self" and "fullmatch True email_re e"
    and "u = [] \<or> \<not> is_word (last u)" and "v = [] \<or> \<not> is_word (hd v)"
  shows "has_pii (validate self (u @ e @ v)) \<and>
         ''email'' \<in> set (pii_types (validate self (u @ e @ v)))"
proof -
  let ?d = "detect_one (''email'', email_re) (u @ e @ v)"
  have "hits (pieces True email_re None (u @ e @ v)) \<noteq> []"
    using assms(2-4) by (rule match_in_context)
  then have "?d \<noteq> []"
    by (simp add: detect_one_empty)
  then obtain x where x: "x \<in> set ?d" by (cases ?d) auto
  then have n: "fst x = ''email''" by (rule detect_one_names)
  have "x \<in> set (detect_patterns (u @ e @ v))"
    using x by (simp add: detect_patterns_concat PATTERNS_def)
  then have "detect_patterns (u @ e @ v) \<noteq> []"
    and "''email'' \<in> fst ` set (detect_patterns (u @ e @ v))"
    using n by (auto intro: rev_image_eqI)
  then show ?thesis
    using assms(1) by (simp add: validate_def Let_def)
qed

theorem email_detected_witness:
  "has_pii (validate \<lparr>enabled = True, threshold = 4 / 5\<rparr> (''to: '' @ ''a@b.com'' @ '', ok'')) \<and>
   ''email'' \<in> set (pii_types (validate \<lparr>enabled = True, threshold = 4 / 5\<rparr>
                                   (''to: '' @ ''a@b.com'' @ '', ok'')))"
proof -
  have e: "enabled \<lparr>enabled = True, threshold = 4 / 5\<rparr>" by simp
  have u: "''to: '' = [] \<or> \<not> is_word (last ''to: '')" by code_simp
  have v: "'', ok'' = [] \<or> \<not> is_word (hd '', ok'')" by code_simp
  from email_detected [OF e fullmatch_address u v] show ?thesis .
qed

text \<open>
  C5. The email rule of \<open>sanitize\<close>: the pass over the address pattern replaces every match
  by \<^verbatim>\<open>[EMAIL_REDACTED]@\<close> followed by the domain of the match, which is everything behind
  the one \<^verbatim>\<open>@\<close> of the match, and keeps the rest of the text. For
  \<^verbatim>\<open>contact me at a@b.com\<close> the result of \<open>sanitize\<close> contains \<^verbatim>\<open>@b.com\<close> and does not
  contain \<^verbatim>\<open>a@b.com\<close>.
\<close>

theorem sanitize_email_keeps_domain:
  "sanitize_step (''email'', email_re) content =
     Inr (replace_all email_re (\<lambda>m. ''[EMAIL_REDACTED]@'' @ domain_of m) content) \<and>
   list_all (\<lambda>(m, cp). \<exists>l. one_at m l (domain_of m))
     (hits (pieces True email_re None content)) \<and>
   sanitize ''contact me at a@b.com'' = Inr ''contact me at [EMAIL_REDACTED]@b.com'' \<and>
   contains ''@b.com'' ''contact me at [EMAIL_REDACTED]@b.com'' \<and>
   \<not> contains ''a@b.com'' ''contact me at [EMAIL_REDACTED]@b.com''"
proof -
  have "sanitize_step (''email'', email_re) content =
          Inr (replace_all email_re (\<lambda>m. ''[EMAIL_REDACTED]@'' @ domain_of m) content)"
    using re_sub_email [of content] by (simp add: sanitize_step_def email_pass_def)
  moreover have "list_all (\<lambda>(m, cp). \<exists>l. one_at m l (domain_of m))
     (hits (pieces True email_re None content))"
    unfolding list_all_iff
  proof clarify
    fix m cp
    assume "(m, cp) \<in> set (hits (pieces True email_re None content))"
    then obtain l d where "one_at m l d" using email_hit_one_at by blast
    then show "\<exists>l. one_at m l (domain_of m)"
      by (auto simp: domain_of_def one_at_domain)
  qed
  moreover have "contains ''@b.com'' ''contact me at [EMAIL_REDACTED]@b.com''"
    by code_simp
  moreover have "\<not> contains ''a@b.com'' ''contact me at [EMAIL_REDACTED]@b.com''"
    by code_simp
  ultimately show ?thesis
    using sanitize_contact by blast
qed

theorem sanitize_email_keeps_domain_witness:
  "sanitize_step (''email'', email_re) ''a@b.com'' = Inr ''[EMAIL_REDACTED]@b.com'' \<and>
   one_at ''a@b.com'' ''a'' ''b.com''"
proof -
  have r: "replace_all email_re (\<lambda>m. ''[EMAIL_REDACTED]@'' @ domain_of m) ''a@b.com'' =
           ''[EMAIL_REDACTED]@b.com''"
    by code_simp
  have o: "one_at ''a@b.com'' ''a'' ''b.com''"
    by (simp add: one_at_def)
  from sanitize_email_keeps_domain [of "''a@b.com''"] r o show ?thesis by simp
qed

text \<open>
  C6. With the engine disabled, \<open>validate\<close> returns \<open>has_pii = False\<close>, \<open>confidence = 1.0\<close>,
  \<open>safe_to_send = True\<close> and empty \<open>pii_types\<close> and \<open>details\<close>, whatever the text.
\<close>

theorem validate_disabled:
  "\<not> enabled self \<Longrightarrow>
     validate self content =
       \<lparr>has_pii = False, pii_types = [], confidence = 1, details = [], safe_to_send = True\<rparr>"
  by (simp add: validate_def)

theorem validate_disabled_witness:
  "\<not> enabled \<lparr>enabled = False, threshold = 4 / 5\<rparr> \<and>
   validate \<lparr>enabled = False, threshold = 4 / 5\<rparr> ''a@b.com'' =
     \<lparr>has_pii = False, pii_types = [], confidence = 1, details = [], safe_to_send = True\<rparr>"
proof -
  have d: "\<not> enabled \<lparr>enabled = False, threshold = 4 / 5\<rparr>" by simp
  from validate_disabled [OF d, of "''a@b.com''"] d show ?thesis by blast
qed

text \<open>
  C7. For every text and either setting of \<open>enabled\<close>, the result of \<open>validate\<close> has
  \<open>has_pii\<close> exactly when \<open>details\<close> is not empty, and \<open>details\<close> and \<open>pii_types\<close> have the
  same length.
\<close>

theorem validate_invariant:
  "has_pii (validate self content) = (length (details (validate self content)) > 0) \<and>
   length (details (validate self content)) = length (pii_types (validate self content))"
  by (simp add: validate_def Let_def)

theorem validate_invariant_witness:
  "has_pii (validate \<lparr>enabled = True, threshold = 4 / 5\<rparr> ''a@b.com'') \<and>
   length (details (validate \<lparr>enabled = True, threshold = 4 / 5\<rparr> ''a@b.com'')) = 1 \<and>
   length (pii_types (validate \<lparr>enabled = True, threshold = 4 / 5\<rparr> ''a@b.com'')) = 1"
proof -
  have "length (details (validate \<lparr>enabled = True, threshold = 4 / 5\<rparr> ''a@b.com'')) = 1"
    by (simp add: validate_def Let_def detect_address)
  with validate_invariant [of "\<lparr>enabled = True, threshold = 4 / 5\<rparr>" "''a@b.com''"]
  show ?thesis by simp
qed

text \<open>
  C8. The claim: \<open>sanitize (sanitize x) = sanitize x\<close> for every text. The email rule keeps
  the domain of a match, and in \<^verbatim>\<open>a@b.co@d.org\<close> the kept domain \<^verbatim>\<open>b.co\<close> is the local
  part of a second address, which only the second run finds.
\<close>

theorem sanitize_twice_differs:
  "sanitize ''a@b.co@d.org'' = Inr ''[EMAIL_REDACTED]@b.co@d.org'' \<and>
   sanitize_twice ''a@b.co@d.org'' = Inr ''[EMAIL_REDACTED]@[EMAIL_REDACTED]@d.org'' \<and>
   sanitize_twice ''a@b.co@d.org'' \<noteq> sanitize ''a@b.co@d.org''"
  by code_simp

text \<open>
  C8, amended: for every text in which no match of the email scan is directly followed by an
  \<^verbatim>\<open>@\<close>, sanitizing the sanitized text again yields the same text, and no match of any
  of the six patterns is left in it. For every text, no phone, ssn, credit card, IP address
  or address match is left in the sanitized text, and sanitizing it again yields the same
  text exactly when no email match is left in it.
\<close>

theorem sanitize_idempotent:
  "sanitize x = Inr y \<Longrightarrow>
     (\<not> email_then_at x \<longrightarrow> sanitize_twice x = sanitize x \<and> \<not> any_match y) \<and>
     (sanitize_twice x = sanitize x) = (hits (pieces True email_re None y) = []) \<and>
     hits (pieces True phone_re None y) = [] \<and>
     hits (pieces True ssn_re None y) = [] \<and>
     hits (pieces True credit_card_re None y) = [] \<and>
     hits (pieces True ip_address_re None y) = [] \<and>
     hits (pieces True address_re None y) = []"
proof -
  assume "sanitize x = Inr y"
  then have y: "y = sanitize_spec x" by (simp add: sanitize_is_spec)
  have a: "\<not> email_then_at x \<longrightarrow> sanitize_twice x = sanitize x \<and> \<not> any_match y"
    using sanitize_then_at_clear [of x]
    by (auto simp: y sanitize_twice_def sanitize_is_spec sanitize_spec_no_match)
  have b: "(sanitize_twice x = sanitize x) = (hits (pieces True email_re None y) = [])"
  proof (cases "hits (pieces True email_re None y) = []")
    case True
    then have "\<not> any_match y" by (simp add: y any_match_email_only)
    with True show ?thesis
      by (simp add: y sanitize_twice_def sanitize_is_spec sanitize_spec_no_match)
  next
    case False
    from sanitize_changes_email [OF this] False show ?thesis
      by (simp add: y sanitize_twice_def sanitize_is_spec)
  qed
  from a b show ?thesis by (simp add: y sanitize_leaves_email_only)
qed

theorem sanitize_idempotent_witness:
  "sanitize ''a@b.com, c@d.org'' = Inr ''[EMAIL_REDACTED]@b.com, [EMAIL_REDACTED]@d.org'' \<and>
   \<not> email_then_at ''a@b.com, c@d.org'' \<and>
   sanitize_twice ''a@b.com, c@d.org'' = sanitize ''a@b.com, c@d.org'' \<and>
   \<not> any_match ''[EMAIL_REDACTED]@b.com, [EMAIL_REDACTED]@d.org'' \<and>
   hits (pieces True email_re None ''[EMAIL_REDACTED]@b.com, [EMAIL_REDACTED]@d.org'') = []"
  using sanitize_idempotent [OF sanitize_two_addresses] sanitize_two_addresses
    no_then_at_two_addresses by metis

text \<open>
  C9. \<open>sanitize\<close> is the composition of the six global find-and-replace passes in the order
  email, phone, ssn, credit card, IP address, address, each pass working on the output of the
  pass before it.
\<close>

theorem sanitize_refines_spec:
  "sanitize content =
     Inr (address_pass (ip_address_pass (credit_card_pass (ssn_pass (phone_pass
       (email_pass content))))))"
  using sanitize_is_spec [of content] by (simp add: sanitize_spec_def)

theorem sanitize_refines_spec_witness:
  "sanitize ''1.2.3.4@b.com'' = Inr ''[EMAIL_REDACTED]@b.com'' \<and>
   email_pass ''1.2.3.4@b.com'' = ''[EMAIL_REDACTED]@b.com'' \<and>
   ip_address_pass ''1.2.3.4@b.com'' = ''[IP_ADDRESS_REDACTED]@b.com''"
proof -
  have a: "address_pass (ip_address_pass (credit_card_pass (ssn_pass (phone_pass
       (email_pass ''1.2.3.4@b.com''))))) = ''[EMAIL_REDACTED]@b.com''"
    by code_simp
  have b: "email_pass ''1.2.3.4@b.com'' = ''[EMAIL_REDACTED]@b.com''"
    by code_simp
  have c: "ip_address_pass ''1.2.3.4@b.com'' = ''[IP_ADDRESS_REDACTED]@b.com''"
    by code_simp
  from sanitize_refines_spec [of "''1.2.3.4@b.com''"] a b c show ?thesis by simp
qed

text \<open>
  C10. Every match of the email pattern has exactly one \<^verbatim>\<open>@\<close>: splitting it at \<^verbatim>\<open>@\<close>
  gives two parts, the element at index 1 exists and is the whole domain, and \<open>sanitize\<close>
  never raises \<open>IndexError\<close>.
\<close>

theorem email_match_single_at:
  "list_all (\<lambda>(m, cp). count_list m CHR ''@'' = 1 \<and>
       (\<exists>l d. one_at m l d \<and> split_chr CHR ''@'' m = [l, d] \<and>
              index (split_chr CHR ''@'' m) 1 = Inr d \<and>
              email_repl m cp = Inr (''[EMAIL_REDACTED]@'' @ d)))
     (hits (pieces True email_re None content)) \<and>
   (\<exists>out. sanitize content = Inr out)"
proof -
  have "list_all (\<lambda>(m, cp). count_list m CHR ''@'' = 1 \<and>
       (\<exists>l d. one_at m l d \<and> split_chr CHR ''@'' m = [l, d] \<and>
              index (split_chr CHR ''@'' m) 1 = Inr d \<and>
              email_repl m cp = Inr (''[EMAIL_REDACTED]@'' @ d)))
     (hits (pieces True email_re None content))"
    unfolding list_all_iff
  proof clarify
    fix m cp
    assume "(m, cp) \<in> set (hits (pieces True email_re None content))"
    then obtain l d where o: "one_at m l d" using email_hit_one_at by blast
    then have "split_chr CHR ''@'' m = [l, d]" by (rule one_at_split)
    moreover from this have "index (split_chr CHR ''@'' m) 1 = Inr d"
      by (simp add: index_def)
    ultimately show "count_list m CHR ''@'' = 1 \<and>
       (\<exists>l d. one_at m l d \<and> split_chr CHR ''@'' m = [l, d] \<and>
              index (split_chr CHR ''@'' m) 1 = Inr d \<and>
              email_repl m cp = Inr (''[EMAIL_REDACTED]@'' @ d))"
      using o one_at_count [OF o] one_at_repl [OF o] by blast
  qed
  then show ?thesis
    by (simp add: sanitize_is_spec)
qed

theorem email_match_single_at_witness:
  "hits (pieces True email_re None ''a@b.com'') = [(''a@b.com'', [])] \<and>
   count_list ''a@b.com'' CHR ''@'' = 1 \<and>
   (\<exists>out. sanitize ''a@b.com'' = Inr out)"
  using email_match_single_at [of "''a@b.com''"] by (simp add: hits_address)

end
